theory Spec2Isabelle
  imports Main "HOL-Library.Sublist"
begin

unbundle bit_operations_syntax

section \<open>The difference engine of \<open>src/debug/liveedit.cc\<close>\<close>

text \<open>
  The development embeds the sequence-comparison core of V8's LiveEdit:
  \<^item> class \<open>Differencer\<close> (dynamic-programming table, path reconstruction, the
    nested class \<open>ResultWriter\<close> that merges steps into chunks);
  \<^item> \<open>NarrowDownInput\<close> (common prefix and suffix);
  \<^item> \<open>LineEndsWrapper\<close>, \<open>LineArrayCompareInput\<close>, \<open>TokensCompareInput\<close>,
    \<open>TokensCompareOutput\<close>, \<open>TokenizingLineArrayCompareOutput\<close>,
    \<open>CompareOutputArrayWriter\<close> and \<open>LiveEdit::CompareStrings\<close>.

  Conventions. A C++ \<open>int\<close> has 32 bits. Its values are HOL integers, and the
  arithmetic of \<open>Differencer\<close> that can leave the 32-bit range (the table size
  \<open>len1 * len2\<close>, the cell index \<open>i1 + i2 * len1\<close>, the shifted costs and the
  additions to them) is written with the wrap-around \<open>int32\<close>. Positions run
  from 0 to a length, which is itself an \<open>int\<close>, and character offsets are bounded by
  the length of a V8 string (below \<open>2^30\<close>): \<open>pos + 1\<close> and the sums of positions
  and lengths stay in range and are written without \<open>int32\<close>. A member \<open>x_\<close> of
  the source is written \<open>x\<close>, with a class prefix where two classes share a member
  name. A virtual interface (\<open>Comparator::Input\<close>, \<open>Comparator::Output\<close>) is a record
  of its methods or a method passed as a function; mutation is state passing.
  \<open>NarrowDownInput\<close>, written in the source against the two subrangable interfaces,
  is typed at the one pair of classes it is called with.
\<close>

subsection \<open>32-bit \<open>int\<close>\<close>

text \<open>
  The value that an arithmetic result has as a 32-bit two's complement \<open>int\<close>:
  results from \<open>-2^31\<close> to \<open>2^31 - 1\<close> are kept, any other wraps around.
\<close>

definition int32 :: "int \<Rightarrow> int" where
  "int32 x = (x + 2 ^ 31) mod 2 ^ 32 - 2 ^ 31"

subsection \<open>\<open>Comparator::Input\<close> and the direction flags\<close>

record Input =
  GetLength1 :: int
  GetLength2 :: int
  Equals :: "int \<Rightarrow> int \<Rightarrow> bool"

datatype Direction = EQ | SKIP1 | SKIP2 | SKIP_ANY

fun Direction_to_int :: "Direction \<Rightarrow> int" where
  "Direction_to_int EQ = 0"
| "Direction_to_int SKIP1 = 1"
| "Direction_to_int SKIP2 = 2"
| "Direction_to_int SKIP_ANY = 3"

text \<open>\<open>static_cast<Direction>\<close> of a masked cell; the mask leaves only 0..3.\<close>

definition Direction_of_int :: "int \<Rightarrow> Direction" where
  "Direction_of_int k =
     (if k = 0 then EQ else if k = 1 then SKIP1 else if k = 2 then SKIP2 else SKIP_ANY)"

definition kDirectionSizeBits :: nat where
  "kDirectionSizeBits = 2"

definition kDirectionMask :: int where
  "kDirectionMask = push_bit kDirectionSizeBits 1 - 1"

text \<open>\<open>~0u << kDirectionSizeBits\<close>, read as an \<open>int\<close>: all cost bits set, that is \<open>-4\<close>.\<close>

definition kEmptyCellValue :: int where
  "kEmptyCellValue = push_bit kDirectionSizeBits (NOT 0)"

subsection \<open>\<open>Differencer::ResultWriter\<close>\<close>

text \<open>
  The sink \<open>Comparator::Output\<close> is a state \<open>'o\<close> together with its virtual method
  \<open>AddChunk\<close>, passed as the first argument \<open>ac\<close>.
\<close>

record 'o ResultWriter =
  chunk_writer :: 'o
  pos1 :: int
  pos2 :: int
  pos1_begin :: int
  pos2_begin :: int
  has_open_chunk :: bool

definition ResultWriter_new :: "'o \<Rightarrow> 'o ResultWriter" where
  "ResultWriter_new cw =
     \<lparr>chunk_writer = cw, pos1 = 0, pos2 = 0,
      pos1_begin = -1, pos2_begin = -1, has_open_chunk = False\<rparr>"

definition StartChunk :: "'o ResultWriter \<Rightarrow> 'o ResultWriter" where
  "StartChunk w =
     (if \<not> has_open_chunk w
      then w\<lparr>pos1_begin := pos1 w, pos2_begin := pos2 w, has_open_chunk := True\<rparr>
      else w)"

definition FlushChunk ::
  "(int \<Rightarrow> int \<Rightarrow> int \<Rightarrow> int \<Rightarrow> 'o \<Rightarrow> 'o) \<Rightarrow> 'o ResultWriter \<Rightarrow> 'o ResultWriter" where
  "FlushChunk ac w =
     (if has_open_chunk w
      then w\<lparr>chunk_writer :=
                ac (pos1_begin w) (pos2_begin w)
                   (pos1 w - pos1_begin w) (pos2 w - pos2_begin w) (chunk_writer w),
              has_open_chunk := False\<rparr>
      else w)"

definition eq ::
  "(int \<Rightarrow> int \<Rightarrow> int \<Rightarrow> int \<Rightarrow> 'o \<Rightarrow> 'o) \<Rightarrow> 'o ResultWriter \<Rightarrow> 'o ResultWriter" where
  "eq ac w = (let w1 = FlushChunk ac w in w1\<lparr>pos1 := pos1 w1 + 1, pos2 := pos2 w1 + 1\<rparr>)"

definition skip1 :: "int \<Rightarrow> 'o ResultWriter \<Rightarrow> 'o ResultWriter" where
  "skip1 n w = (let w1 = StartChunk w in w1\<lparr>pos1 := pos1 w1 + n\<rparr>)"

definition skip2 :: "int \<Rightarrow> 'o ResultWriter \<Rightarrow> 'o ResultWriter" where
  "skip2 n w = (let w1 = StartChunk w in w1\<lparr>pos2 := pos2 w1 + n\<rparr>)"

definition close ::
  "(int \<Rightarrow> int \<Rightarrow> int \<Rightarrow> int \<Rightarrow> 'o \<Rightarrow> 'o) \<Rightarrow> 'o ResultWriter \<Rightarrow> 'o ResultWriter" where
  "close ac w = FlushChunk ac w"

subsection \<open>\<open>Differencer\<close>: the table\<close>

text \<open>
  The members \<open>input_\<close>, \<open>len1_\<close>, \<open>len2_\<close> never change after construction and form
  the record; the one mutable member, the table \<open>buffer_\<close>, is threaded through the
  methods as an \<open>int list\<close>.
\<close>

record Differencer =
  input :: Input
  len1 :: int
  len2 :: int

definition Differencer_new :: "Input \<Rightarrow> Differencer" where
  "Differencer_new inp = \<lparr>input = inp, len1 = GetLength1 inp, len2 = GetLength2 inp\<rparr>"

text \<open>
  The constructor allocates \<open>len1_ * len2_\<close> cells and \<open>Initialize\<close> fills as many:
  the product is an \<open>int\<close>, so the table has \<open>int32 (len1 * len2)\<close> cells (none when
  that number is not positive).
\<close>

definition Initialize :: "Differencer \<Rightarrow> int list" where
  "Initialize d =
     (let array_size = int32 (len1 d * len2 d)
      in replicate (nat array_size) kEmptyCellValue)"

text \<open>
  The index \<open>i1 + i2 * len1_\<close> of a cell, as the \<open>int\<close> it is. An access outside
  the buffer has no defined behaviour in C++: the model leaves the value read there, and
  the table after a write there, unspecified.
\<close>

definition cell_index :: "Differencer \<Rightarrow> int \<Rightarrow> int \<Rightarrow> int" where
  "cell_index d i1 i2 = int32 (i1 + int32 (i2 * len1 d))"

definition get_cell :: "Differencer \<Rightarrow> int list \<Rightarrow> int \<Rightarrow> int \<Rightarrow> int" where
  "get_cell d buf i1 i2 =
     (let k = cell_index d i1 i2
      in if 0 \<le> k \<and> k < int (length buf) then buf ! nat k else undefined)"

definition set_value4_and_dir ::
  "Differencer \<Rightarrow> int list \<Rightarrow> int \<Rightarrow> int \<Rightarrow> int \<Rightarrow> Direction \<Rightarrow> int list" where
  "set_value4_and_dir d buf i1 i2 value4 dir =
     (let k = cell_index d i1 i2
      in if 0 \<le> k \<and> k < int (length buf)
         then buf[nat k := value4 OR Direction_to_int dir] else undefined)"

text \<open>
  \<open>kMaxUInt32 ^ kDirectionMask\<close> is the 32-bit pattern with every bit but the two
  flag bits set, which on \<open>int\<close> is \<open>NOT kDirectionMask\<close>.
\<close>

definition get_value4 :: "Differencer \<Rightarrow> int list \<Rightarrow> int \<Rightarrow> int \<Rightarrow> int" where
  "get_value4 d buf i1 i2 = get_cell d buf i1 i2 AND NOT kDirectionMask"

definition get_direction :: "Differencer \<Rightarrow> int list \<Rightarrow> int \<Rightarrow> int \<Rightarrow> Direction" where
  "get_direction d buf i1 i2 = Direction_of_int (get_cell d buf i1 i2 AND kDirectionMask)"

text \<open>
  \<open>CompareUpToTail\<close> returns the shifted cost of the subproblem together with the
  table after the call. The shifts and the additions of \<open>1 << kDirectionSizeBits\<close>
  are 32-bit operations.
\<close>

function CompareUpToTail :: "Differencer \<Rightarrow> int list \<Rightarrow> int \<Rightarrow> int \<Rightarrow> int \<times> int list" where
  "CompareUpToTail d buf p1 p2 =
     (if p1 < len1 d then
        if p2 < len2 d then
          let cached_res = get_value4 d buf p1 p2 in
          if cached_res = kEmptyCellValue then
            if Equals (input d) p1 p2 then
              (case CompareUpToTail d buf (p1 + 1) (p2 + 1) of
                 (res, buf1) \<Rightarrow> (res, set_value4_and_dir d buf1 p1 p2 res EQ))
            else
              (case CompareUpToTail d buf (p1 + 1) p2 of
                 (r1, buf1) \<Rightarrow>
                   (case CompareUpToTail d buf1 p1 (p2 + 1) of
                      (r2, buf2) \<Rightarrow>
                        let res1 = int32 (r1 + push_bit kDirectionSizeBits 1);
                            res2 = int32 (r2 + push_bit kDirectionSizeBits 1)
                        in if res1 = res2
                           then (res1, set_value4_and_dir d buf2 p1 p2 res1 SKIP_ANY)
                           else if res1 < res2
                           then (res1, set_value4_and_dir d buf2 p1 p2 res1 SKIP1)
                           else (res2, set_value4_and_dir d buf2 p1 p2 res2 SKIP2)))
          else (cached_res, buf)
        else (int32 (push_bit kDirectionSizeBits (int32 (len1 d - p1))), buf)
      else (int32 (push_bit kDirectionSizeBits (int32 (len2 d - p2))), buf))"
  by pat_completeness auto
termination
  by (relation "measure (\<lambda>(d, buf, p1, p2). nat (len1 d - p1) + nat (len2 d - p2))") auto

declare CompareUpToTail.simps [simp del]

definition FillTable :: "Differencer \<Rightarrow> int list \<Rightarrow> int list" where
  "FillTable d buf = snd (CompareUpToTail d buf 0 0)"

subsection \<open>\<open>Differencer::SaveResult\<close>\<close>

text \<open>
  One pass through the body of \<open>while (true)\<close>: either the loop goes on with a new
  writer and new positions, or it reaches a \<open>break\<close>.
\<close>

datatype 'o loop_state = Continue "'o ResultWriter" int int | Break "'o ResultWriter"

definition SaveResult_body ::
  "(int \<Rightarrow> int \<Rightarrow> int \<Rightarrow> int \<Rightarrow> 'o \<Rightarrow> 'o) \<Rightarrow> Differencer \<Rightarrow> int list \<Rightarrow>
   'o ResultWriter \<Rightarrow> int \<Rightarrow> int \<Rightarrow> 'o loop_state" where
  "SaveResult_body ac d buf writer p1 p2 =
     (if p1 < len1 d then
        if p2 < len2 d then
          (case get_direction d buf p1 p2 of
             EQ \<Rightarrow> Continue (eq ac writer) (p1 + 1) (p2 + 1)
           | SKIP1 \<Rightarrow> Continue (skip1 1 writer) (p1 + 1) p2
           | SKIP2 \<Rightarrow> Continue (skip2 1 writer) p1 (p2 + 1)
           | SKIP_ANY \<Rightarrow> Continue (skip2 1 writer) p1 (p2 + 1))
        else Break (skip1 (len1 d - p1) writer)
      else Break (if len2 d \<noteq> p2 then skip2 (len2 d - p2) writer else writer))"

function SaveResult_loop ::
  "(int \<Rightarrow> int \<Rightarrow> int \<Rightarrow> int \<Rightarrow> 'o \<Rightarrow> 'o) \<Rightarrow> Differencer \<Rightarrow> int list \<Rightarrow>
   'o ResultWriter \<Rightarrow> int \<Rightarrow> int \<Rightarrow> 'o ResultWriter" where
  "SaveResult_loop ac d buf writer p1 p2 =
     (case SaveResult_body ac d buf writer p1 p2 of
        Continue writer' p1' p2' \<Rightarrow> SaveResult_loop ac d buf writer' p1' p2'
      | Break writer' \<Rightarrow> writer')"
  by pat_completeness auto
termination
  by (relation "measure (\<lambda>(ac, d, buf, w, p1, p2). nat (len1 d - p1) + nat (len2 d - p2))")
     (auto simp: SaveResult_body_def split: if_splits Direction.splits)

declare SaveResult_loop.simps [simp del]

definition SaveResult ::
  "(int \<Rightarrow> int \<Rightarrow> int \<Rightarrow> int \<Rightarrow> 'o \<Rightarrow> 'o) \<Rightarrow> Differencer \<Rightarrow> int list \<Rightarrow> 'o \<Rightarrow> 'o" where
  "SaveResult ac d buf cw =
     chunk_writer (close ac (SaveResult_loop ac d buf (ResultWriter_new cw) 0 0))"

definition CalculateDifference ::
  "(int \<Rightarrow> int \<Rightarrow> int \<Rightarrow> int \<Rightarrow> 'o \<Rightarrow> 'o) \<Rightarrow> Input \<Rightarrow> 'o \<Rightarrow> 'o" where
  "CalculateDifference ac inp result_writer =
     (let differencer = Differencer_new inp;
          buf0 = Initialize differencer;
          buf1 = FillTable differencer buf0
      in SaveResult ac differencer buf1 result_writer)"

subsection \<open>Strings and \<open>CompareSubstrings\<close>\<close>

text \<open>
  A flat V8 string is a \<open>string\<close>: the code compares characters for equality only, so
  their width plays no part, and \<open>String::Flatten\<close> changes the representation of a
  string, not its characters. \<open>String::Get\<close> is only defined inside the string (the
  source asserts it); outside it the model answers \<open>None\<close>.
\<close>

definition Get :: "string \<Rightarrow> int \<Rightarrow> char option" where
  "Get s i = (if 0 \<le> i \<and> i < int (length s) then Some (s ! nat i) else None)"

function CompareSubstrings_loop ::
  "string \<Rightarrow> int \<Rightarrow> string \<Rightarrow> int \<Rightarrow> int \<Rightarrow> int \<Rightarrow> bool" where
  "CompareSubstrings_loop s1 p1 s2 p2 len i =
     (if i < len then
        if Get s1 (i + p1) \<noteq> Get s2 (i + p2) then False
        else CompareSubstrings_loop s1 p1 s2 p2 len (i + 1)
      else True)"
  by pat_completeness auto
termination
  by (relation "measure (\<lambda>(s1, p1, s2, p2, len, i). nat (len - i))") auto

declare CompareSubstrings_loop.simps [simp del]

definition CompareSubstrings :: "string \<Rightarrow> int \<Rightarrow> string \<Rightarrow> int \<Rightarrow> int \<Rightarrow> bool" where
  "CompareSubstrings s1 p1 s2 p2 len = CompareSubstrings_loop s1 p1 s2 p2 len 0"

subsection \<open>\<open>NarrowDownInput\<close>: the two scans\<close>

function common_prefix_loop :: "Input \<Rightarrow> int \<Rightarrow> int \<Rightarrow> int" where
  "common_prefix_loop inp prefix_limit common_prefix_len =
     (if common_prefix_len < prefix_limit \<and> Equals inp common_prefix_len common_prefix_len
      then common_prefix_loop inp prefix_limit (common_prefix_len + 1)
      else common_prefix_len)"
  by pat_completeness auto
termination
  by (relation "measure (\<lambda>(inp, lim, n). nat (lim - n))") auto

declare common_prefix_loop.simps [simp del]

function common_suffix_loop :: "Input \<Rightarrow> int \<Rightarrow> int \<Rightarrow> int \<Rightarrow> int \<Rightarrow> int" where
  "common_suffix_loop inp l1 l2 suffix_limit common_suffix_len =
     (if common_suffix_len < suffix_limit \<and>
         Equals inp (l1 - common_suffix_len - 1) (l2 - common_suffix_len - 1)
      then common_suffix_loop inp l1 l2 suffix_limit (common_suffix_len + 1)
      else common_suffix_len)"
  by pat_completeness auto
termination
  by (relation "measure (\<lambda>(inp, l1, l2, lim, n). nat (lim - n))") auto

declare common_suffix_loop.simps [simp del]

subsection \<open>\<open>CompareOutputArrayWriter\<close>\<close>

text \<open>
  The JavaScript array is a map from indices to the small integers stored there;
  \<open>SetElementSloppy\<close> stores one element.
\<close>

record CompareOutputArrayWriter =
  array :: "nat \<rightharpoonup> int"
  current_size :: int

definition CompareOutputArrayWriter_new :: CompareOutputArrayWriter where
  "CompareOutputArrayWriter_new = \<lparr>array = Map.empty, current_size = 0\<rparr>"

definition SetElementSloppy :: "(nat \<rightharpoonup> int) \<Rightarrow> int \<Rightarrow> int \<Rightarrow> (nat \<rightharpoonup> int)" where
  "SetElementSloppy object index v = object(nat index \<mapsto> v)"

definition WriteChunk ::
  "int \<Rightarrow> int \<Rightarrow> int \<Rightarrow> int \<Rightarrow> CompareOutputArrayWriter \<Rightarrow> CompareOutputArrayWriter" where
  "WriteChunk char_pos1 char_pos2 char_len1 char_len2 w =
     (let a1 = SetElementSloppy (array w) (current_size w) char_pos1;
          a2 = SetElementSloppy a1 (current_size w + 1) (char_pos1 + char_len1);
          a3 = SetElementSloppy a2 (current_size w + 2) (char_pos2 + char_len2)
      in \<lparr>array = a3, current_size = current_size w + 3\<rparr>)"

text \<open>
  The calls of \<open>WriteChunk\<close>, in order, are the chunk list of a run. The pipeline below
  is written once over any array writer \<open>'w\<close> with its \<open>WriteChunk\<close> method \<open>wc\<close>;
  \<open>record_chunk\<close> is the writer that keeps the arguments of every call.
\<close>

type_synonym chunk = "int \<times> int \<times> int \<times> int"

definition record_chunk :: "int \<Rightarrow> int \<Rightarrow> int \<Rightarrow> int \<Rightarrow> chunk list \<Rightarrow> chunk list" where
  "record_chunk p1 p2 l1 l2 log = log @ [(p1, p2, l1, l2)]"

subsection \<open>\<open>TokensCompareInput\<close> and \<open>TokensCompareOutput\<close>\<close>

definition TokensCompareInput ::
  "string \<Rightarrow> int \<Rightarrow> int \<Rightarrow> string \<Rightarrow> int \<Rightarrow> int \<Rightarrow> Input" where
  "TokensCompareInput s1 offset1 l1 s2 offset2 l2 =
     \<lparr>GetLength1 = l1, GetLength2 = l2,
      Equals = (\<lambda>index1 index2. Get s1 (offset1 + index1) = Get s2 (offset2 + index2))\<rparr>"

record 'w TokensCompareOutput =
  tok_array_writer :: 'w
  tok_offset1 :: int
  tok_offset2 :: int

definition TokensCompareOutput_AddChunk ::
  "(int \<Rightarrow> int \<Rightarrow> int \<Rightarrow> int \<Rightarrow> 'w \<Rightarrow> 'w) \<Rightarrow>
   int \<Rightarrow> int \<Rightarrow> int \<Rightarrow> int \<Rightarrow> 'w TokensCompareOutput \<Rightarrow> 'w TokensCompareOutput" where
  "TokensCompareOutput_AddChunk wc p1 p2 l1 l2 t =
     t\<lparr>tok_array_writer :=
         wc (p1 + tok_offset1 t) (p2 + tok_offset2 t) l1 l2 (tok_array_writer t)\<rparr>"

subsection \<open>\<open>LineEndsWrapper\<close>\<close>

text \<open>
  Modelled from the spec: \<open>String::CalculateLineEnds\<close> is called by the constructor of
  \<open>LineEndsWrapper\<close> and is not among the sources. The spec has it scan the text once
  for line-terminator positions and store them, in order; the source's comments name
  the terminator a new line character. The result lists the positions of the new line
  characters of the text, in increasing order.
\<close>

fun line_ends_from :: "string \<Rightarrow> int \<Rightarrow> int list" where
  "line_ends_from [] i = []"
| "line_ends_from (c # cs) i =
     (if c = CHR 0x0A then i # line_ends_from cs (i + 1) else line_ends_from cs (i + 1))"

definition CalculateLineEnds :: "string \<Rightarrow> int list" where
  "CalculateLineEnds s = line_ends_from s 0"

record LineEndsWrapper =
  ends_array :: "int list"
  string_len :: int

definition LineEndsWrapper_new :: "string \<Rightarrow> LineEndsWrapper" where
  "LineEndsWrapper_new s = \<lparr>ends_array = CalculateLineEnds s, string_len = int (length s)\<rparr>"

definition LineEndsWrapper_length :: "LineEndsWrapper \<Rightarrow> int" where
  "LineEndsWrapper_length w = int (length (ends_array w)) + 1"

definition GetPosAfterNewLine :: "LineEndsWrapper \<Rightarrow> int \<Rightarrow> int" where
  "GetPosAfterNewLine w index = ends_array w ! nat index + 1"

definition GetLineEnd :: "LineEndsWrapper \<Rightarrow> int \<Rightarrow> int" where
  "GetLineEnd w index =
     (if index = int (length (ends_array w)) then string_len w
      else GetPosAfterNewLine w index)"

definition GetLineStart :: "LineEndsWrapper \<Rightarrow> int \<Rightarrow> int" where
  "GetLineStart w index = (if index = 0 then 0 else GetLineEnd w (index - 1))"

subsection \<open>\<open>LineArrayCompareInput\<close>\<close>

record LineArrayCompareInput =
  in_s1 :: string
  in_s2 :: string
  in_line_ends1 :: LineEndsWrapper
  in_line_ends2 :: LineEndsWrapper
  in_subrange_offset1 :: int
  in_subrange_offset2 :: int
  in_subrange_len1 :: int
  in_subrange_len2 :: int

definition LineArrayCompareInput_new ::
  "string \<Rightarrow> string \<Rightarrow> LineEndsWrapper \<Rightarrow> LineEndsWrapper \<Rightarrow> LineArrayCompareInput" where
  "LineArrayCompareInput_new s1 s2 line_ends1 line_ends2 =
     \<lparr>in_s1 = s1, in_s2 = s2, in_line_ends1 = line_ends1, in_line_ends2 = line_ends2,
      in_subrange_offset1 = 0, in_subrange_offset2 = 0,
      in_subrange_len1 = LineEndsWrapper_length line_ends1,
      in_subrange_len2 = LineEndsWrapper_length line_ends2\<rparr>"

definition LineArray_Equals :: "LineArrayCompareInput \<Rightarrow> int \<Rightarrow> int \<Rightarrow> bool" where
  "LineArray_Equals a index1 index2 =
     (let index1 = index1 + in_subrange_offset1 a;
          index2 = index2 + in_subrange_offset2 a;
          line_start1 = GetLineStart (in_line_ends1 a) index1;
          line_start2 = GetLineStart (in_line_ends2 a) index2;
          line_end1 = GetLineEnd (in_line_ends1 a) index1;
          line_end2 = GetLineEnd (in_line_ends2 a) index2;
          l1 = line_end1 - line_start1;
          l2 = line_end2 - line_start2
      in if l1 \<noteq> l2 then False
         else CompareSubstrings (in_s1 a) line_start1 (in_s2 a) line_start2 l1)"

definition LineArray_SetSubrange1 ::
  "int \<Rightarrow> int \<Rightarrow> LineArrayCompareInput \<Rightarrow> LineArrayCompareInput" where
  "LineArray_SetSubrange1 offset len a = a\<lparr>in_subrange_offset1 := offset, in_subrange_len1 := len\<rparr>"

definition LineArray_SetSubrange2 ::
  "int \<Rightarrow> int \<Rightarrow> LineArrayCompareInput \<Rightarrow> LineArrayCompareInput" where
  "LineArray_SetSubrange2 offset len a = a\<lparr>in_subrange_offset2 := offset, in_subrange_len2 := len\<rparr>"

text \<open>The object seen through the interface \<open>Comparator::Input\<close>.\<close>

definition LineArray_Input :: "LineArrayCompareInput \<Rightarrow> Input" where
  "LineArray_Input a =
     \<lparr>GetLength1 = in_subrange_len1 a, GetLength2 = in_subrange_len2 a,
      Equals = LineArray_Equals a\<rparr>"

subsection \<open>\<open>TokenizingLineArrayCompareOutput\<close>\<close>

record 'w TokenizingLineArrayCompareOutput =
  out_array_writer :: 'w
  out_line_ends1 :: LineEndsWrapper
  out_line_ends2 :: LineEndsWrapper
  out_s1 :: string
  out_s2 :: string
  out_subrange_offset1 :: int
  out_subrange_offset2 :: int

definition TokenizingLineArrayCompareOutput_new ::
  "'w \<Rightarrow> LineEndsWrapper \<Rightarrow> LineEndsWrapper \<Rightarrow> string \<Rightarrow> string \<Rightarrow>
   'w TokenizingLineArrayCompareOutput" where
  "TokenizingLineArrayCompareOutput_new w line_ends1 line_ends2 s1 s2 =
     \<lparr>out_array_writer = w, out_line_ends1 = line_ends1, out_line_ends2 = line_ends2,
      out_s1 = s1, out_s2 = s2, out_subrange_offset1 = 0, out_subrange_offset2 = 0\<rparr>"

definition CHUNK_LEN_LIMIT :: int where
  "CHUNK_LEN_LIMIT = 800"

definition AddChunk ::
  "(int \<Rightarrow> int \<Rightarrow> int \<Rightarrow> int \<Rightarrow> 'w \<Rightarrow> 'w) \<Rightarrow> int \<Rightarrow> int \<Rightarrow> int \<Rightarrow> int \<Rightarrow>
   'w TokenizingLineArrayCompareOutput \<Rightarrow> 'w TokenizingLineArrayCompareOutput" where
  "AddChunk wc line_pos1 line_pos2 line_len1 line_len2 out =
     (let line_pos1 = line_pos1 + out_subrange_offset1 out;
          line_pos2 = line_pos2 + out_subrange_offset2 out;
          char_pos1 = GetLineStart (out_line_ends1 out) line_pos1;
          char_pos2 = GetLineStart (out_line_ends2 out) line_pos2;
          char_len1 = GetLineStart (out_line_ends1 out) (line_pos1 + line_len1) - char_pos1;
          char_len2 = GetLineStart (out_line_ends2 out) (line_pos2 + line_len2) - char_pos2
      in if char_len1 < CHUNK_LEN_LIMIT \<and> char_len2 < CHUNK_LEN_LIMIT then
           let tokens_input =
                 TokensCompareInput (out_s1 out) char_pos1 char_len1
                                    (out_s2 out) char_pos2 char_len2;
               tokens_output =
                 \<lparr>tok_array_writer = out_array_writer out,
                  tok_offset1 = char_pos1, tok_offset2 = char_pos2\<rparr>;
               tokens_output' =
                 CalculateDifference (TokensCompareOutput_AddChunk wc) tokens_input tokens_output
           in out\<lparr>out_array_writer := tok_array_writer tokens_output'\<rparr>
         else
           out\<lparr>out_array_writer :=
                 wc char_pos1 char_pos2 char_len1 char_len2 (out_array_writer out)\<rparr>)"

definition Output_SetSubrange1 ::
  "int \<Rightarrow> int \<Rightarrow> 'w TokenizingLineArrayCompareOutput \<Rightarrow> 'w TokenizingLineArrayCompareOutput" where
  "Output_SetSubrange1 offset len out = out\<lparr>out_subrange_offset1 := offset\<rparr>"

definition Output_SetSubrange2 ::
  "int \<Rightarrow> int \<Rightarrow> 'w TokenizingLineArrayCompareOutput \<Rightarrow> 'w TokenizingLineArrayCompareOutput" where
  "Output_SetSubrange2 offset len out = out\<lparr>out_subrange_offset2 := offset\<rparr>"

subsection \<open>\<open>NarrowDownInput\<close> and \<open>LiveEdit::CompareStrings\<close>\<close>

definition NarrowDownInput ::
  "LineArrayCompareInput \<Rightarrow> 'w TokenizingLineArrayCompareOutput \<Rightarrow>
   LineArrayCompareInput \<times> 'w TokenizingLineArrayCompareOutput" where
  "NarrowDownInput inp out =
     (let l1 = GetLength1 (LineArray_Input inp);
          l2 = GetLength2 (LineArray_Input inp);
          prefix_limit = min l1 l2;
          common_prefix_len = common_prefix_loop (LineArray_Input inp) prefix_limit 0;
          suffix_limit = min (l1 - common_prefix_len) (l2 - common_prefix_len);
          common_suffix_len = common_suffix_loop (LineArray_Input inp) l1 l2 suffix_limit 0
      in if common_prefix_len > 0 \<or> common_suffix_len > 0 then
           let new_len1 = l1 - common_suffix_len - common_prefix_len;
               new_len2 = l2 - common_suffix_len - common_prefix_len
           in (LineArray_SetSubrange2 common_prefix_len new_len2
                 (LineArray_SetSubrange1 common_prefix_len new_len1 inp),
               Output_SetSubrange2 common_prefix_len new_len2
                 (Output_SetSubrange1 common_prefix_len new_len1 out))
         else (inp, out))"

definition CompareStrings_into ::
  "(int \<Rightarrow> int \<Rightarrow> int \<Rightarrow> int \<Rightarrow> 'w \<Rightarrow> 'w) \<Rightarrow> 'w \<Rightarrow> string \<Rightarrow> string \<Rightarrow> 'w" where
  "CompareStrings_into wc w s1 s2 =
     (let line_ends1 = LineEndsWrapper_new s1;
          line_ends2 = LineEndsWrapper_new s2;
          inp = LineArrayCompareInput_new s1 s2 line_ends1 line_ends2;
          out = TokenizingLineArrayCompareOutput_new w line_ends1 line_ends2 s1 s2
      in case NarrowDownInput inp out of
           (inp', out') \<Rightarrow>
             out_array_writer (CalculateDifference (AddChunk wc) (LineArray_Input inp') out'))"

text \<open>The function of the source: its result is the array of the array writer.\<close>

definition CompareStrings :: "string \<Rightarrow> string \<Rightarrow> CompareOutputArrayWriter" where
  "CompareStrings s1 s2 = CompareStrings_into WriteChunk CompareOutputArrayWriter_new s1 s2"

text \<open>The chunks \<open>(pos1, pos2, len1, len2)\<close> that the same run hands to \<open>WriteChunk\<close>.\<close>

definition CompareStrings_chunks :: "string \<Rightarrow> string \<Rightarrow> chunk list" where
  "CompareStrings_chunks s1 s2 = CompareStrings_into record_chunk [] s1 s2"

section \<open>Notions used to state and prove the properties\<close>

subsection \<open>Tables that fit 32-bit arithmetic\<close>

text \<open>
  \<open>fits_int32 l1 l2\<close>: for two lengths that are not negative, the number of cells
  \<open>l1 * l2\<close> is an \<open>int\<close>, and so is every shifted cost, the largest being
  \<open>4 * (l1 + l2)\<close>.
\<close>

definition fits_int32 :: "int \<Rightarrow> int \<Rightarrow> bool" where
  "fits_int32 l1 l2 = (0 \<le> l1 \<and> 0 \<le> l2 \<and> l1 * l2 < 2 ^ 31 \<and> l1 + l2 < 2 ^ 29)"

subsection \<open>The recurrence without the table\<close>

text \<open>
  \<open>cost\<close> and \<open>dirn\<close> are the cost and the flag that \<open>CompareUpToTail\<close> computes for
  a cell, written as a plain recursion: the reference against which the table is
  checked.
\<close>

function cost :: "Differencer \<Rightarrow> int \<Rightarrow> int \<Rightarrow> int" where
  "cost d p1 p2 =
     (if p1 < len1 d then
        if p2 < len2 d then
          if Equals (input d) p1 p2 then cost d (p1 + 1) (p2 + 1)
          else min (cost d (p1 + 1) p2) (cost d p1 (p2 + 1)) + 1
        else len1 d - p1
      else len2 d - p2)"
  by pat_completeness auto
termination
  by (relation "measure (\<lambda>(d, p1, p2). nat (len1 d - p1) + nat (len2 d - p2))") auto

declare cost.simps [simp del]

definition dirn :: "Differencer \<Rightarrow> int \<Rightarrow> int \<Rightarrow> Direction" where
  "dirn d p1 p2 =
     (if Equals (input d) p1 p2 then EQ
      else if cost d (p1 + 1) p2 = cost d p1 (p2 + 1) then SKIP_ANY
      else if cost d (p1 + 1) p2 < cost d p1 (p2 + 1) then SKIP1 else SKIP2)"

definition in_table :: "Differencer \<Rightarrow> int \<Rightarrow> int \<Rightarrow> bool" where
  "in_table d p1 p2 = (0 \<le> p1 \<and> p1 < len1 d \<and> 0 \<le> p2 \<and> p2 < len2 d)"

definition filled :: "Differencer \<Rightarrow> int list \<Rightarrow> int \<Rightarrow> int \<Rightarrow> bool" where
  "filled d buf p1 p2 = (get_value4 d buf p1 p2 \<noteq> kEmptyCellValue)"

definition done_at :: "Differencer \<Rightarrow> int list \<Rightarrow> int \<Rightarrow> int \<Rightarrow> bool" where
  "done_at d buf p1 p2 = (in_table d p1 p2 \<longrightarrow> filled d buf p1 p2)"

definition cell_of :: "Differencer \<Rightarrow> int \<Rightarrow> int \<Rightarrow> int" where
  "cell_of d p1 p2 = push_bit 2 (cost d p1 p2) OR Direction_to_int (dirn d p1 p2)"

text \<open>
  The invariant of the table: it has its full size, every computed cell holds the cost
  and flag of the recurrence, and the cells a computed cell points to are computed.
\<close>

definition table_ok :: "Differencer \<Rightarrow> int list \<Rightarrow> bool" where
  "table_ok d buf =
     (length buf = nat (len1 d * len2 d) \<and>
      (\<forall>p1 p2. in_table d p1 p2 \<and> filled d buf p1 p2 \<longrightarrow>
         get_cell d buf p1 p2 = cell_of d p1 p2 \<and>
         (if Equals (input d) p1 p2 then done_at d buf (p1 + 1) (p2 + 1)
          else done_at d buf (p1 + 1) p2 \<and> done_at d buf p1 (p2 + 1))))"

definition memo_post ::
  "Differencer \<Rightarrow> int list \<Rightarrow> int \<Rightarrow> int \<Rightarrow> int \<times> int list \<Rightarrow> bool" where
  "memo_post d buf p1 p2 res =
     (fst res = push_bit 2 (cost d p1 p2) \<and> table_ok d (snd res) \<and>
      (\<forall>q1 q2. in_table d q1 q2 \<and> filled d buf q1 q2 \<longrightarrow> filled d (snd res) q1 q2) \<and>
      done_at d (snd res) p1 p2)"

text \<open>
  The value that \<open>CompareUpToTail (i, j)\<close> returns on the table \<open>buf\<close>, shifted right
  by the direction bits.
\<close>

definition returned_cost :: "Input \<Rightarrow> int list \<Rightarrow> int \<Rightarrow> int \<Rightarrow> int" where
  "returned_cost inp buf i j =
     drop_bit kDirectionSizeBits (fst (CompareUpToTail (Differencer_new inp) buf i j))"

subsection \<open>The classification stream\<close>

text \<open>
  The calls that \<open>SaveResult\<close> makes on its \<open>ResultWriter\<close>, as a list of steps, and the
  list of steps the recurrence prescribes from a cell.
\<close>

datatype step = StepEq | StepSkip1 int | StepSkip2 int

fun apply_step ::
  "(int \<Rightarrow> int \<Rightarrow> int \<Rightarrow> int \<Rightarrow> 'o \<Rightarrow> 'o) \<Rightarrow> 'o ResultWriter \<Rightarrow> step \<Rightarrow> 'o ResultWriter" where
  "apply_step ac w StepEq = eq ac w"
| "apply_step ac w (StepSkip1 n) = skip1 n w"
| "apply_step ac w (StepSkip2 n) = skip2 n w"

definition feed ::
  "(int \<Rightarrow> int \<Rightarrow> int \<Rightarrow> int \<Rightarrow> 'o \<Rightarrow> 'o) \<Rightarrow> 'o ResultWriter \<Rightarrow> step list \<Rightarrow> 'o ResultWriter" where
  "feed ac w ss = foldl (apply_step ac) w ss"

function path :: "Differencer \<Rightarrow> int \<Rightarrow> int \<Rightarrow> step list" where
  "path d p1 p2 =
     (if p1 < len1 d then
        if p2 < len2 d then
          (case dirn d p1 p2 of
             EQ \<Rightarrow> StepEq # path d (p1 + 1) (p2 + 1)
           | SKIP1 \<Rightarrow> StepSkip1 1 # path d (p1 + 1) p2
           | SKIP2 \<Rightarrow> StepSkip2 1 # path d p1 (p2 + 1)
           | SKIP_ANY \<Rightarrow> StepSkip2 1 # path d p1 (p2 + 1))
        else [StepSkip1 (len1 d - p1)]
      else (if len2 d \<noteq> p2 then [StepSkip2 (len2 d - p2)] else []))"
  by pat_completeness auto
termination
  by (relation "measure (\<lambda>(d, p1, p2). nat (len1 d - p1) + nat (len2 d - p2))") auto

declare path.simps [simp del]

definition replay :: "(int \<Rightarrow> int \<Rightarrow> int \<Rightarrow> int \<Rightarrow> 'o \<Rightarrow> 'o) \<Rightarrow> 'o \<Rightarrow> chunk list \<Rightarrow> 'o" where
  "replay ac cw cs = foldl (\<lambda>acc (a, b, l1, l2). ac a b l1 l2 acc) cw cs"

fun is_skip :: "step \<Rightarrow> bool" where
  "is_skip StepEq = False"
| "is_skip (StepSkip1 n) = True"
| "is_skip (StepSkip2 n) = True"

text \<open>The numbers of elements of the first and of the second sequence that a stream skips.\<close>

fun skipped1 :: "step list \<Rightarrow> int" where
  "skipped1 [] = 0"
| "skipped1 (StepEq # ss) = skipped1 ss"
| "skipped1 (StepSkip1 n # ss) = n + skipped1 ss"
| "skipped1 (StepSkip2 n # ss) = skipped1 ss"

fun skipped2 :: "step list \<Rightarrow> int" where
  "skipped2 [] = 0"
| "skipped2 (StepEq # ss) = skipped2 ss"
| "skipped2 (StepSkip1 n # ss) = skipped2 ss"
| "skipped2 (StepSkip2 n # ss) = n + skipped2 ss"

text \<open>The number of maximal runs of consecutive skip steps of a stream.\<close>

fun runs :: "step list \<Rightarrow> nat" where
  "runs [] = 0"
| "runs [s] = (if is_skip s then 1 else 0)"
| "runs (s # t # ss) = (if is_skip s \<and> \<not> is_skip t then Suc (runs (t # ss)) else runs (t # ss))"

subsection \<open>Coverings\<close>

text \<open>
  \<open>diag E p1 p2 n\<close>: the \<open>n\<close> positions from \<open>p1\<close> in the first sequence equal, one by
  one, those from \<open>p2\<close> in the second. \<open>covers E p1 p2 e1 e2 cs\<close>: the chunks \<open>cs\<close>, in
  order, cover the ranges \<open>[p1, e1)\<close> and \<open>[p2, e2)\<close>: each chunk has lengths that are
  not negative, and what lies before, between and after the chunks has the same length
  in both sequences and is equal position by position.
\<close>

definition diag :: "(int \<Rightarrow> int \<Rightarrow> bool) \<Rightarrow> int \<Rightarrow> int \<Rightarrow> int \<Rightarrow> bool" where
  "diag E p1 p2 n = (\<forall>k\<in>{0..<n}. E (p1 + k) (p2 + k))"

fun covers :: "(int \<Rightarrow> int \<Rightarrow> bool) \<Rightarrow> int \<Rightarrow> int \<Rightarrow> int \<Rightarrow> int \<Rightarrow> chunk list \<Rightarrow> bool" where
  "covers E p1 p2 e1 e2 [] = (p1 \<le> e1 \<and> e2 - p2 = e1 - p1 \<and> diag E p1 p2 (e1 - p1))"
| "covers E p1 p2 e1 e2 ((a, b, l1, l2) # cs) =
     (p1 \<le> a \<and> b - p2 = a - p1 \<and> diag E p1 p2 (a - p1) \<and> 0 \<le> l1 \<and> 0 \<le> l2 \<and>
      covers E (a + l1) (b + l2) e1 e2 cs)"

definition chunks_size :: "chunk list \<Rightarrow> int" where
  "chunks_size cs = (\<Sum>(a, b, l1, l2)\<leftarrow>cs. l1 + l2)"

text \<open>
  The other cost of a chunk list that the spec mentions: every chunk counts each of its
  two lengths, but at least one for each.
\<close>

definition chunks_cost_max :: "chunk list \<Rightarrow> int" where
  "chunks_cost_max cs = (\<Sum>(a, b, l1, l2)\<leftarrow>cs. max l1 1 + max l2 1)"

subsection \<open>The merger as a function on streams\<close>

definition sim ::
  "(int \<Rightarrow> int \<Rightarrow> int \<Rightarrow> int \<Rightarrow> 'o \<Rightarrow> 'o) \<Rightarrow> 'o \<Rightarrow> 'o ResultWriter \<Rightarrow> chunk list ResultWriter \<Rightarrow> bool" where
  "sim ac cw w wl =
     (pos1 w = pos1 wl \<and> pos2 w = pos2 wl \<and> pos1_begin w = pos1_begin wl \<and>
      pos2_begin w = pos2_begin wl \<and> has_open_chunk w = has_open_chunk wl \<and>
      chunk_writer w = replay ac cw (chunk_writer wl))"

definition open_of :: "'o ResultWriter \<Rightarrow> (int \<times> int) option" where
  "open_of w = (if has_open_chunk w then Some (pos1_begin w, pos2_begin w) else None)"

fun flushed :: "(int \<times> int) option \<Rightarrow> int \<Rightarrow> int \<Rightarrow> chunk list" where
  "flushed None p1 p2 = []"
| "flushed (Some (b1, b2)) p1 p2 = [(b1, b2, p1 - b1, p2 - b2)]"

fun started :: "(int \<times> int) option \<Rightarrow> int \<Rightarrow> int \<Rightarrow> (int \<times> int) option" where
  "started None p1 p2 = Some (p1, p2)"
| "started (Some b) p1 p2 = Some b"

text \<open>
  \<open>merged opn p1 p2 ss\<close>: the chunks emitted for the stream \<open>ss\<close> and the final
  \<open>close\<close> by a writer at \<open>(p1, p2)\<close> whose open chunk, if any, began at \<open>opn\<close>.
\<close>

fun merged :: "(int \<times> int) option \<Rightarrow> int \<Rightarrow> int \<Rightarrow> step list \<Rightarrow> chunk list" where
  "merged opn p1 p2 [] = flushed opn p1 p2"
| "merged opn p1 p2 (StepEq # ss) = flushed opn p1 p2 @ merged None (p1 + 1) (p2 + 1) ss"
| "merged opn p1 p2 (StepSkip1 n # ss) = merged (started opn p1 p2) (p1 + n) p2 ss"
| "merged opn p1 p2 (StepSkip2 n # ss) = merged (started opn p1 p2) p1 (p2 + n) ss"

text \<open>
  The chunks of the stream that the recurrence prescribes from the first cell. When the
  table fits, they are the chunks that a run of the engine hands to its sink.
\<close>

definition diff_chunks :: "Input \<Rightarrow> chunk list" where
  "diff_chunks inp = merged None 0 0 (path (Differencer_new inp) 0 0)"

text \<open>
  \<open>aligns E e1 e2 p1 p2 ss\<close>: the stream \<open>ss\<close> is an alignment of the ranges
  \<open>[p1, e1)\<close> and \<open>[p2, e2)\<close>: an equal step stands on a pair of equal elements, a skip
  step passes at least one element, and the stream ends at \<open>(e1, e2)\<close>. Its number of
  skip operations is \<open>skips ss\<close>.
\<close>

fun aligns :: "(int \<Rightarrow> int \<Rightarrow> bool) \<Rightarrow> int \<Rightarrow> int \<Rightarrow> int \<Rightarrow> int \<Rightarrow> step list \<Rightarrow> bool" where
  "aligns E e1 e2 p1 p2 [] = (p1 = e1 \<and> p2 = e2)"
| "aligns E e1 e2 p1 p2 (StepEq # ss) = (E p1 p2 \<and> aligns E e1 e2 (p1 + 1) (p2 + 1) ss)"
| "aligns E e1 e2 p1 p2 (StepSkip1 n # ss) = (1 \<le> n \<and> aligns E e1 e2 (p1 + n) p2 ss)"
| "aligns E e1 e2 p1 p2 (StepSkip2 n # ss) = (1 \<le> n \<and> aligns E e1 e2 p1 (p2 + n) ss)"

fun skips :: "step list \<Rightarrow> int" where
  "skips [] = 0"
| "skips (StepEq # ss) = skips ss"
| "skips (StepSkip1 n # ss) = n + skips ss"
| "skips (StepSkip2 n # ss) = n + skips ss"

definition nondegenerate :: "chunk \<Rightarrow> bool" where
  "nondegenerate c = (case c of (a, b, l1, l2) \<Rightarrow> 0 \<le> l1 \<and> 0 \<le> l2 \<and> 1 \<le> l1 + l2)"

fun begin_of :: "(int \<times> int) option \<Rightarrow> int \<Rightarrow> int \<Rightarrow> int \<times> int" where
  "begin_of None p1 p2 = (p1, p2)"
| "begin_of (Some b) p1 p2 = b"

subsection \<open>Texts, lines and the final chunk list\<close>

text \<open>Equality of one character of the first text with one of the second.\<close>

definition same_char :: "string \<Rightarrow> string \<Rightarrow> int \<Rightarrow> int \<Rightarrow> bool" where
  "same_char s1 s2 i j = (Get s1 i = Get s2 j)"

text \<open>
  A line-ends array is well formed for a text of length \<open>n\<close> when its entries are
  positions of the text in strictly increasing order.
\<close>

definition valid_ends :: "int list \<Rightarrow> int \<Rightarrow> bool" where
  "valid_ends ends n = (sorted_wrt (<) ends \<and> (\<forall>e\<in>set ends. 0 \<le> e \<and> e < n))"

definition valid_wrapper :: "LineEndsWrapper \<Rightarrow> bool" where
  "valid_wrapper w = valid_ends (ends_array w) (string_len w)"

definition shift :: "int \<Rightarrow> int \<Rightarrow> chunk \<Rightarrow> chunk" where
  "shift o1 o2 c = (case c of (a, b, l1, l2) \<Rightarrow> (a + o1, b + o2, l1, l2))"

text \<open>
  Applying a chunk list to the first text: from position \<open>pos\<close> on, the text before a
  chunk is kept, the chunk's span is replaced by the chunk's span of the second text,
  and the text after the last chunk is kept.
\<close>

fun apply_chunks_from :: "int \<Rightarrow> chunk list \<Rightarrow> string \<Rightarrow> string \<Rightarrow> string" where
  "apply_chunks_from pos [] A B = drop (nat pos) A"
| "apply_chunks_from pos ((a, b, l1, l2) # cs) A B =
     take (nat (a - pos)) (drop (nat pos) A) @ take (nat l2) (drop (nat b) B) @
     apply_chunks_from (a + l1) cs A B"

definition apply_chunks :: "chunk list \<Rightarrow> string \<Rightarrow> string \<Rightarrow> string" where
  "apply_chunks cs A B = apply_chunks_from 0 cs A B"

text \<open>
  The character chunks that \<open>AddChunk\<close> writes for one line chunk given in absolute
  line positions: the shifted chunks of the nested run on the two character spans when
  both are shorter than the limit, the translated chunk itself otherwise.
\<close>

definition chars_of_lines ::
  "LineEndsWrapper \<Rightarrow> LineEndsWrapper \<Rightarrow> string \<Rightarrow> string \<Rightarrow> chunk \<Rightarrow> chunk list" where
  "chars_of_lines w1 w2 s1 s2 c =
     (case c of (a, b, l1, l2) \<Rightarrow>
        let char_pos1 = GetLineStart w1 a;
            char_pos2 = GetLineStart w2 b;
            char_len1 = GetLineStart w1 (a + l1) - char_pos1;
            char_len2 = GetLineStart w2 (b + l2) - char_pos2
        in if char_len1 < CHUNK_LEN_LIMIT \<and> char_len2 < CHUNK_LEN_LIMIT
           then map (shift char_pos1 char_pos2)
                  (diff_chunks (TokensCompareInput s1 char_pos1 char_len1 s2 char_pos2 char_len2))
           else [(char_pos1, char_pos2, char_len1, char_len2)])"

definition out_chunks :: "'w TokenizingLineArrayCompareOutput \<Rightarrow> chunk \<Rightarrow> chunk list" where
  "out_chunks out c =
     chars_of_lines (out_line_ends1 out) (out_line_ends2 out) (out_s1 out) (out_s2 out)
       (shift (out_subrange_offset1 out) (out_subrange_offset2 out) c)"

text \<open>
  Equality of line \<open>i\<close> of the first text with line \<open>j\<close> of the second, in absolute line
  numbers: the same length and the same characters.
\<close>

definition line_eq ::
  "LineEndsWrapper \<Rightarrow> LineEndsWrapper \<Rightarrow> string \<Rightarrow> string \<Rightarrow> int \<Rightarrow> int \<Rightarrow> bool" where
  "line_eq w1 w2 s1 s2 i j =
     (GetLineEnd w2 j - GetLineStart w2 j = GetLineEnd w1 i - GetLineStart w1 i \<and>
      diag (same_char s1 s2) (GetLineStart w1 i) (GetLineStart w2 j)
        (GetLineEnd w1 i - GetLineStart w1 i))"

text \<open>
  The line input that \<open>CompareStrings\<close> builds for two texts, and the lengths of the
  common prefix and suffix that \<open>NarrowDownInput\<close> finds on it.
\<close>

definition line_input :: "string \<Rightarrow> string \<Rightarrow> LineArrayCompareInput" where
  "line_input s1 s2 =
     LineArrayCompareInput_new s1 s2 (LineEndsWrapper_new s1) (LineEndsWrapper_new s2)"

definition common_prefix_len :: "string \<Rightarrow> string \<Rightarrow> int" where
  "common_prefix_len s1 s2 =
     common_prefix_loop (LineArray_Input (line_input s1 s2))
       (min (LineEndsWrapper_length (LineEndsWrapper_new s1))
            (LineEndsWrapper_length (LineEndsWrapper_new s2))) 0"

definition common_suffix_len :: "string \<Rightarrow> string \<Rightarrow> int" where
  "common_suffix_len s1 s2 =
     common_suffix_loop (LineArray_Input (line_input s1 s2))
       (LineEndsWrapper_length (LineEndsWrapper_new s1))
       (LineEndsWrapper_length (LineEndsWrapper_new s2))
       (min (LineEndsWrapper_length (LineEndsWrapper_new s1) - common_prefix_len s1 s2)
            (LineEndsWrapper_length (LineEndsWrapper_new s2) - common_prefix_len s1 s2)) 0"

text \<open>
  The line input after \<open>NarrowDownInput\<close>, and the line chunks of the run on it, moved
  back to absolute line numbers.
\<close>

definition narrowed_input :: "string \<Rightarrow> string \<Rightarrow> LineArrayCompareInput" where
  "narrowed_input s1 s2 =
     (line_input s1 s2)
       \<lparr>in_subrange_offset1 := common_prefix_len s1 s2,
        in_subrange_offset2 := common_prefix_len s1 s2,
        in_subrange_len1 :=
          LineEndsWrapper_length (LineEndsWrapper_new s1) - common_suffix_len s1 s2
            - common_prefix_len s1 s2,
        in_subrange_len2 :=
          LineEndsWrapper_length (LineEndsWrapper_new s2) - common_suffix_len s1 s2
            - common_prefix_len s1 s2\<rparr>"

definition line_chunks :: "string \<Rightarrow> string \<Rightarrow> chunk list" where
  "line_chunks s1 s2 =
     map (shift (common_prefix_len s1 s2) (common_prefix_len s1 s2))
       (diff_chunks (LineArray_Input (narrowed_input s1 s2)))"

text \<open>
  The table that \<open>CompareStrings\<close> builds for two texts fits: the two lengths of the
  line input, as \<open>NarrowDownInput\<close> leaves it, fit.
\<close>

definition CompareStrings_fits :: "string \<Rightarrow> string \<Rightarrow> bool" where
  "CompareStrings_fits s1 s2 =
     (let inp = fst (NarrowDownInput (line_input s1 s2)
                  (TokenizingLineArrayCompareOutput_new () (LineEndsWrapper_new s1)
                     (LineEndsWrapper_new s2) s1 s2))
      in fits_int32 (GetLength1 (LineArray_Input inp)) (GetLength2 (LineArray_Input inp)))"

subsection \<open>Reading the result array back\<close>

text \<open>
  The array that \<open>CompareStrings\<close> returns holds three numbers for each chunk:
  \<open>(pos1_begin, pos1_end, pos2_end)\<close>. \<open>triples\<close> reads them; \<open>chunks_of_triples\<close>
  rebuilds the chunks from them, taking as the start of a chunk in the second text its
  start in the first text moved by the difference of the two ends of the chunk before.
\<close>

definition triples :: "CompareOutputArrayWriter \<Rightarrow> (int \<times> int \<times> int) list" where
  "triples w =
     map (\<lambda>k. (the (array w (3 * k)), the (array w (3 * k + 1)), the (array w (3 * k + 2))))
       [0..<nat (current_size w) div 3]"

fun chunks_of_triples :: "int \<Rightarrow> (int \<times> int \<times> int) list \<Rightarrow> chunk list" where
  "chunks_of_triples delta [] = []"
| "chunks_of_triples delta ((s, e1, e2) # ts) =
     (s, s + delta, e1 - s, e2 - (s + delta)) # chunks_of_triples (e2 - e1) ts"

definition decode :: "CompareOutputArrayWriter \<Rightarrow> chunk list" where
  "decode w = chunks_of_triples 0 (triples w)"

definition triple_of :: "chunk \<Rightarrow> int \<times> int \<times> int" where
  "triple_of c = (case c of (a, b, l1, l2) \<Rightarrow> (a, a + l1, b + l2))"

subsection \<open>The two pipelines that the spec compares with the source\<close>

text \<open>
  The pipeline of \<open>CompareStrings\<close> with the call of \<open>NarrowDownInput\<close> left out, and
  nothing else changed.
\<close>

definition CompareStrings_without_narrowing ::
  "(int \<Rightarrow> int \<Rightarrow> int \<Rightarrow> int \<Rightarrow> 'w \<Rightarrow> 'w) \<Rightarrow> 'w \<Rightarrow> string \<Rightarrow> string \<Rightarrow> 'w" where
  "CompareStrings_without_narrowing wc w s1 s2 =
     (let line_ends1 = LineEndsWrapper_new s1;
          line_ends2 = LineEndsWrapper_new s2;
          inp = LineArrayCompareInput_new s1 s2 line_ends1 line_ends2;
          out = TokenizingLineArrayCompareOutput_new w line_ends1 line_ends2 s1 s2
      in out_array_writer (CalculateDifference (AddChunk wc) (LineArray_Input inp) out))"

text \<open>
  The nested run as the spec words it: on the two character spans of a line chunk, first
  the prefix and suffix trimmer (scan forward from the start, bounded by the smaller
  length; scan backward from the ends, bounded by what is left), then the engine and the
  merger on the middle range, with the prefix length added back to every chunk and the
  result shifted by the character starts of the line chunk.
\<close>

definition nested_with_trimmer :: "string \<Rightarrow> int \<Rightarrow> int \<Rightarrow> string \<Rightarrow> int \<Rightarrow> int \<Rightarrow> chunk list" where
  "nested_with_trimmer s1 char_pos1 char_len1 s2 char_pos2 char_len2 =
     (let view = TokensCompareInput s1 char_pos1 char_len1 s2 char_pos2 char_len2;
          prefix_len = common_prefix_loop view (min char_len1 char_len2) 0;
          suffix_len = common_suffix_loop view char_len1 char_len2
                         (min char_len1 char_len2 - prefix_len) 0;
          middle = TokensCompareInput s1 (char_pos1 + prefix_len) (char_len1 - suffix_len - prefix_len)
                                      s2 (char_pos2 + prefix_len) (char_len2 - suffix_len - prefix_len)
      in map (shift (char_pos1 + prefix_len) (char_pos2 + prefix_len))
           (CalculateDifference record_chunk middle []))"

definition AddChunk_with_trimmer ::
  "(int \<Rightarrow> int \<Rightarrow> int \<Rightarrow> int \<Rightarrow> 'w \<Rightarrow> 'w) \<Rightarrow> int \<Rightarrow> int \<Rightarrow> int \<Rightarrow> int \<Rightarrow>
   'w TokenizingLineArrayCompareOutput \<Rightarrow> 'w TokenizingLineArrayCompareOutput" where
  "AddChunk_with_trimmer wc line_pos1 line_pos2 line_len1 line_len2 out =
     (let line_pos1 = line_pos1 + out_subrange_offset1 out;
          line_pos2 = line_pos2 + out_subrange_offset2 out;
          char_pos1 = GetLineStart (out_line_ends1 out) line_pos1;
          char_pos2 = GetLineStart (out_line_ends2 out) line_pos2;
          char_len1 = GetLineStart (out_line_ends1 out) (line_pos1 + line_len1) - char_pos1;
          char_len2 = GetLineStart (out_line_ends2 out) (line_pos2 + line_len2) - char_pos2
      in if char_len1 < CHUNK_LEN_LIMIT \<and> char_len2 < CHUNK_LEN_LIMIT then
           out\<lparr>out_array_writer :=
                 replay wc (out_array_writer out)
                   (nested_with_trimmer (out_s1 out) char_pos1 char_len1
                                        (out_s2 out) char_pos2 char_len2)\<rparr>
         else
           out\<lparr>out_array_writer :=
                 wc char_pos1 char_pos2 char_len1 char_len2 (out_array_writer out)\<rparr>)"

subsection \<open>Trimming a common suffix\<close>

text \<open>
  \<open>exit_cell d p1 p2\<close>: the cell at which the loop of \<open>SaveResult\<close>, walking from
  \<open>(p1, p2)\<close> by the flags of the recurrence, has reached the end of one of the two
  sequences. From there \<open>SaveResult\<close> skips what is left of the other sequence in one
  step: the tail of the run.
\<close>

function exit_cell :: "Differencer \<Rightarrow> int \<Rightarrow> int \<Rightarrow> int \<times> int" where
  "exit_cell d p1 p2 =
     (if p1 < len1 d \<and> p2 < len2 d then
        (case dirn d p1 p2 of
           EQ \<Rightarrow> exit_cell d (p1 + 1) (p2 + 1)
         | SKIP1 \<Rightarrow> exit_cell d (p1 + 1) p2
         | SKIP2 \<Rightarrow> exit_cell d p1 (p2 + 1)
         | SKIP_ANY \<Rightarrow> exit_cell d p1 (p2 + 1))
      else (p1, p2))"
  by pat_completeness auto
termination
  by (relation "measure (\<lambda>(d, p1, p2). nat (len1 d - p1) + nat (len2 d - p2))") auto

declare exit_cell.simps [simp del]

text \<open>
  \<open>suffix_of dn d k\<close>: the differencer \<open>dn\<close> sees the input of \<open>d\<close> without its last
  \<open>k\<close> elements on both sides, and these are a common suffix. \<open>tail_fresh dn d x1 x2\<close>:
  the first element of that suffix equals no element of the two ranges of \<open>dn\<close> from
  \<open>x1\<close> and from \<open>x2\<close> on.
\<close>

definition suffix_of :: "Differencer \<Rightarrow> Differencer \<Rightarrow> int \<Rightarrow> bool" where
  "suffix_of dn d k =
     (0 \<le> k \<and> 0 \<le> len1 dn \<and> 0 \<le> len2 dn \<and> len1 d = len1 dn + k \<and> len2 d = len2 dn + k \<and>
      Equals (input dn) = Equals (input d) \<and>
      diag (Equals (input d)) (len1 dn) (len2 dn) k)"

definition tail_fresh :: "Differencer \<Rightarrow> Differencer \<Rightarrow> int \<Rightarrow> int \<Rightarrow> bool" where
  "tail_fresh dn d x1 x2 =
     ((\<forall>i. x1 \<le> i \<and> i < len1 dn \<longrightarrow> \<not> Equals (input d) i (len2 dn)) \<and>
      (\<forall>j. x2 \<le> j \<and> j < len2 dn \<longrightarrow> \<not> Equals (input d) (len1 dn) j))"

text \<open>
  For two texts: either \<open>NarrowDownInput\<close> trims no suffix, or no line of the tail of
  the narrowed run equals the first line of the suffix it trims. Lines are counted from
  0 in the whole texts: the ranges left are \<open>[p, e1)\<close> and \<open>[p, e2)\<close>, the suffix begins
  at line \<open>e1\<close> of the first text and at line \<open>e2\<close> of the second, and the tail of the
  narrowed run is \<open>[p + x1, e1)\<close> in the first text and \<open>[p + x2, e2)\<close> in the second
  (one of the two is empty).
\<close>

definition suffix_line_fresh :: "string \<Rightarrow> string \<Rightarrow> bool" where
  "suffix_line_fresh s1 s2 =
     (let inp = LineArray_Input (line_input s1 s2);
          p = common_prefix_len s1 s2;
          e1 = GetLength1 inp - common_suffix_len s1 s2;
          e2 = GetLength2 inp - common_suffix_len s1 s2;
          (x1, x2) = exit_cell (Differencer_new (LineArray_Input (narrowed_input s1 s2))) 0 0
      in common_suffix_len s1 s2 = 0 \<or>
         ((\<forall>i\<in>{p + x1..<e1}. \<not> Equals inp i e2) \<and> (\<forall>j\<in>{p + x2..<e2}. \<not> Equals inp e1 j)))"

subsection \<open>Concrete inputs used as examples\<close>

definition tie_differencer :: Differencer where
  "tie_differencer = Differencer_new (TokensCompareInput ''a'' 0 1 ''b'' 0 1)"

definition tie_table :: "int list" where
  "tie_table = FillTable tie_differencer (Initialize tie_differencer)"

definition example_input :: Input where
  "example_input = TokensCompareInput ''abcb'' 0 4 ''bd'' 0 2"

definition bb_ab_input :: Input where
  "bb_ab_input = TokensCompareInput ''bb'' 0 2 ''ab'' 0 2"

text \<open>Two texts of one line each, \<open>abb\<close> and \<open>b\<close>, and the sink built for them.\<close>

definition abb_output :: "chunk list TokenizingLineArrayCompareOutput" where
  "abb_output =
     TokenizingLineArrayCompareOutput_new [] (LineEndsWrapper_new ''abb'')
       (LineEndsWrapper_new ''b'') ''abb'' ''b''"

text \<open>Two texts of lines: \<open>a\<close>, \<open>b\<close>, \<open>b\<close> and the single line \<open>b\<close>, each line ended.\<close>

definition text_abb :: string where
  "text_abb = [CHR ''a'', CHR 0x0A, CHR ''b'', CHR 0x0A, CHR ''b'', CHR 0x0A]"

definition text_b :: string where
  "text_b = [CHR ''b'', CHR 0x0A]"

text \<open>
  Two texts of three lines that differ in the middle line only, with the common first
  line \<open>function f() {\<close> and the common last line \<open>}\<close>.
\<close>

definition text_return1 :: string where
  "text_return1 = ''function f() {'' @ [CHR 0x0A] @ ''return 1;'' @ [CHR 0x0A] @ ''}''"

definition text_return2 :: string where
  "text_return2 = ''function f() {'' @ [CHR 0x0A] @ ''return 2;'' @ [CHR 0x0A] @ ''}''"

section \<open>Proofs\<close>

lemma kDirectionMask_eq: "kDirectionMask = 3"
  by (simp add: kDirectionMask_def kDirectionSizeBits_def)

lemma kEmptyCellValue_eq: "kEmptyCellValue = -4"
  by (simp add: kEmptyCellValue_def kDirectionSizeBits_def push_bit_eq_mult)

lemma int32_id: "- (2 ^ 31) \<le> x \<Longrightarrow> x < 2 ^ 31 \<Longrightarrow> int32 x = x"
  by (simp add: int32_def)

lemma fits_int32D:
  assumes "fits_int32 l1 l2"
  shows "0 \<le> l1" "0 \<le> l2" "l1 * l2 < 2147483648" "l1 + l2 < 536870912"
  using assms by (simp_all add: fits_int32_def)

lemma three_mask: "(3::int) = mask 2"
  by (simp add: mask_eq_exp_minus_1)

lemma Direction_to_int_range: "0 \<le> Direction_to_int dir \<and> Direction_to_int dir < 4"
  by (cases dir) simp_all

lemma Direction_of_to_int: "Direction_of_int (Direction_to_int dir) = dir"
  by (cases dir) (simp_all add: Direction_of_int_def)

lemma cell_flag_part:
  assumes "0 \<le> c" "c < 4"
  shows "(push_bit 2 v OR (c::int)) AND 3 = c"
  using assms unfolding three_mask
  by (simp add: take_bit_eq_mask[symmetric] take_bit_push_bit take_bit_int_eq_self)

lemma cell_value_part:
  assumes "0 \<le> c" "c < 4"
  shows "(push_bit 2 v OR (c::int)) AND NOT 3 = push_bit 2 v"
proof -
  have c: "take_bit 2 c = c" using assms by (simp add: take_bit_int_eq_self)
  have "bit c n \<Longrightarrow> n < 2" for n
    using c by (metis bit_take_bit_iff)
  then show ?thesis
    unfolding three_mask by (auto simp add: bit_eq_iff bit_simps)
qed

lemma cell_value_part':
  assumes "0 \<le> c" "c < 4"
  shows "(push_bit 2 v OR (c::int)) AND - 4 = push_bit 2 v"
proof -
  have "NOT (3::int) = - 4" by simp
  then show ?thesis using cell_value_part[OF assms, of v] by simp
qed

lemma cell_index_bound:
  assumes "0 \<le> p1" "p1 < L" "0 \<le> p2" "p2 < (M::int)"
  shows "nat (p1 + p2 * L) < nat (L * M)"
proof -
  have "p1 + p2 * L < L + p2 * L" using assms by simp
  also have "\<dots> = (p2 + 1) * L" by (simp add: algebra_simps)
  also have "\<dots> \<le> M * L" using assms by (intro mult_right_mono) auto
  finally have "p1 + p2 * L < L * M" by (simp add: mult.commute)
  moreover have "0 \<le> p1 + p2 * L" using assms by simp
  ultimately show ?thesis by simp
qed

lemma cell_index_inj:
  assumes "0 \<le> p1" "p1 < L" "0 \<le> q1" "q1 < (L::int)" "p1 + p2 * L = q1 + q2 * L"
  shows "p1 = q1 \<and> p2 = q2"
proof -
  have "(p1 + p2 * L) mod L = p1" "(q1 + q2 * L) mod L = q1"
    using assms(1-4) by simp_all
  then have a: "p1 = q1" using assms(5) by metis
  then have "p2 * L = q2 * L" using assms(5) by simp
  then show ?thesis using a assms by auto
qed

lemma cell_index_eq:
  assumes f: "fits_int32 (len1 d) (len2 d)" and t: "in_table d p1 p2"
  shows "cell_index d p1 p2 = p1 + p2 * len1 d"
    and "0 \<le> p1 + p2 * len1 d" and "p1 + p2 * len1 d < len1 d * len2 d"
proof -
  note b = fits_int32D[OF f]
  have p: "0 \<le> p1" "p1 < len1 d" "0 \<le> p2" "p2 < len2 d" using t by (simp_all add: in_table_def)
  have "p1 + p2 * len1 d < len1 d + p2 * len1 d" using p by simp
  also have "\<dots> = (p2 + 1) * len1 d" by (simp add: algebra_simps)
  also have "\<dots> \<le> len2 d * len1 d" using p by (intro mult_right_mono) auto
  finally show u: "p1 + p2 * len1 d < len1 d * len2 d" by (simp add: mult.commute)
  have z: "0 \<le> p2 * len1 d" using p by simp
  then show l: "0 \<le> p1 + p2 * len1 d" using p by simp
  have "p2 * len1 d \<le> p1 + p2 * len1 d" using p by simp
  then have "p2 * len1 d < 2147483648" using u b(3) by linarith
  then have "int32 (p2 * len1 d) = p2 * len1 d" using z by (intro int32_id) simp_all
  moreover have "int32 (p1 + p2 * len1 d) = p1 + p2 * len1 d"
    using l u b(3) by (intro int32_id) simp_all
  ultimately show "cell_index d p1 p2 = p1 + p2 * len1 d" by (simp add: cell_index_def)
qed

lemma cell_in_buffer:
  assumes "fits_int32 (len1 d) (len2 d)" "in_table d p1 p2" "length buf = nat (len1 d * len2 d)"
  shows "0 \<le> cell_index d p1 p2" "cell_index d p1 p2 < int (length buf)"
    "nat (cell_index d p1 p2) < length buf"
  using cell_index_eq[OF assms(1,2)] assms(3) by simp_all

lemma cost_nonneg: "p1 \<le> len1 d \<Longrightarrow> p2 \<le> len2 d \<Longrightarrow> 0 \<le> cost d p1 p2"
proof (induction d p1 p2 rule: cost.induct)
  case (1 d p1 p2)
  show ?case
    using 1 by (subst cost.simps) auto
qed

lemma length_set_value4:
  assumes "fits_int32 (len1 d) (len2 d)" "in_table d p1 p2" "length buf = nat (len1 d * len2 d)"
  shows "length (set_value4_and_dir d buf p1 p2 v dir) = length buf"
  using cell_in_buffer[OF assms] by (simp add: set_value4_and_dir_def Let_def)

lemma get_cell_set_same:
  assumes "fits_int32 (len1 d) (len2 d)" "in_table d p1 p2" "length buf = nat (len1 d * len2 d)"
  shows "get_cell d (set_value4_and_dir d buf p1 p2 v dir) p1 p2 = v OR Direction_to_int dir"
  using cell_in_buffer[OF assms]
  by (simp add: get_cell_def set_value4_and_dir_def Let_def)

lemma get_cell_set_other:
  assumes f: "fits_int32 (len1 d) (len2 d)" and len: "length buf = nat (len1 d * len2 d)"
    and p: "in_table d p1 p2" and q: "in_table d q1 q2" and ne: "(q1, q2) \<noteq> (p1, p2)"
  shows "get_cell d (set_value4_and_dir d buf p1 p2 v dir) q1 q2 = get_cell d buf q1 q2"
proof -
  note ip = cell_index_eq[OF f p] and iq = cell_index_eq[OF f q]
  have "p1 + p2 * len1 d \<noteq> q1 + q2 * len1 d"
    using p q ne cell_index_inj[of p1 "len1 d" q1 p2 q2] by (auto simp: in_table_def)
  then have "nat (cell_index d p1 p2) \<noteq> nat (cell_index d q1 q2)"
    using ip iq by simp
  then show ?thesis
    using cell_in_buffer[OF f p len] cell_in_buffer[OF f q len]
    by (simp add: get_cell_def set_value4_and_dir_def Let_def)
qed

lemma Initialize_eq:
  assumes "fits_int32 (len1 d) (len2 d)"
  shows "Initialize d = replicate (nat (len1 d * len2 d)) kEmptyCellValue"
proof -
  note b = fits_int32D[OF assms]
  have "0 \<le> len1 d * len2 d" using b by simp
  then have "int32 (len1 d * len2 d) = len1 d * len2 d" using b(3) by (intro int32_id) simp_all
  then show ?thesis by (simp add: Initialize_def Let_def)
qed

lemma Initialize_ok:
  assumes f: "fits_int32 (len1 d) (len2 d)"
  shows "table_ok d (Initialize d)"
proof -
  let ?buf = "replicate (nat (len1 d * len2 d)) kEmptyCellValue"
  have len: "length ?buf = nat (len1 d * len2 d)" by simp
  have "\<not> filled d ?buf p1 p2" if t: "in_table d p1 p2" for p1 p2
  proof -
    note c = cell_in_buffer[OF f t len]
    have "nat (cell_index d p1 p2) < nat (len1 d * len2 d)" using c(3) by simp
    then have "?buf ! nat (cell_index d p1 p2) = kEmptyCellValue" by (rule nth_replicate)
    then have "get_cell d ?buf p1 p2 = kEmptyCellValue"
      using c(1,2) unfolding get_cell_def Let_def by (simp only: if_True simp_thms)
    then show ?thesis
      by (simp add: filled_def get_value4_def kEmptyCellValue_eq kDirectionMask_eq)
  qed
  then show ?thesis unfolding Initialize_eq[OF f] table_ok_def using len by blast
qed

lemma filled_cell_of:
  assumes "fits_int32 (len1 d) (len2 d)" "in_table d p1 p2" "length buf = nat (len1 d * len2 d)"
  shows "filled d (set_value4_and_dir d buf p1 p2 (push_bit 2 (cost d p1 p2)) dir) p1 p2"
proof -
  have "0 \<le> cost d p1 p2" using assms by (intro cost_nonneg) (auto simp: in_table_def)
  then have "push_bit 2 (cost d p1 p2) \<noteq> -4" by (simp add: push_bit_eq_mult)
  then show ?thesis
    using assms Direction_to_int_range[of dir]
    by (simp add: filled_def get_value4_def get_cell_set_same kDirectionMask_eq
        kEmptyCellValue_eq cell_value_part')
qed

lemma filled_set_other:
  assumes "fits_int32 (len1 d) (len2 d)" "length buf = nat (len1 d * len2 d)"
    and "in_table d p1 p2" "in_table d q1 q2" "(q1, q2) \<noteq> (p1, p2)"
  shows "filled d (set_value4_and_dir d buf p1 p2 v dir) q1 q2 = filled d buf q1 q2"
  using get_cell_set_other[OF assms] by (simp add: filled_def get_value4_def)

lemma table_ok_set:
  assumes f: "fits_int32 (len1 d) (len2 d)" and ok: "table_ok d buf" and p: "in_table d p1 p2"
    and succ: "if Equals (input d) p1 p2 then done_at d buf (p1 + 1) (p2 + 1)
               else done_at d buf (p1 + 1) p2 \<and> done_at d buf p1 (p2 + 1)"
    and buf': "buf' = set_value4_and_dir d buf p1 p2 (push_bit 2 (cost d p1 p2)) (dirn d p1 p2)"
  shows "table_ok d buf'"
    and "\<And>q1 q2. in_table d q1 q2 \<Longrightarrow> filled d buf q1 q2 \<Longrightarrow> filled d buf' q1 q2"
    and "filled d buf' p1 p2"
proof -
  have len: "length buf = nat (len1 d * len2 d)" using ok by (simp add: table_ok_def)
  show here: "filled d buf' p1 p2"
    unfolding buf' using f p len by (rule filled_cell_of)
  show mono: "filled d buf' q1 q2" if "in_table d q1 q2" "filled d buf q1 q2" for q1 q2
  proof (cases "(q1, q2) = (p1, p2)")
    case True then show ?thesis using here by simp
  next
    case False then show ?thesis
      unfolding buf' using that p filled_set_other[OF f len p, of q1 q2] by simp
  qed
  have dmono: "done_at d buf' q1 q2" if "done_at d buf q1 q2" for q1 q2
    using that mono by (auto simp: done_at_def)
  have "get_cell d buf' q1 q2 = cell_of d q1 q2 \<and>
         (if Equals (input d) q1 q2 then done_at d buf' (q1 + 1) (q2 + 1)
          else done_at d buf' (q1 + 1) q2 \<and> done_at d buf' q1 (q2 + 1))"
    if q: "in_table d q1 q2 \<and> filled d buf' q1 q2" for q1 q2
    proof (cases "(q1, q2) = (p1, p2)")
      case True
      then show ?thesis
        using p len succ dmono f by (auto simp: buf' get_cell_set_same cell_of_def)
    next
      case False
      then have "filled d buf q1 q2" "get_cell d buf' q1 q2 = get_cell d buf q1 q2"
        using q p filled_set_other[OF f len p, of q1 q2] get_cell_set_other[OF f len p, of q1 q2]
        by (auto simp: buf')
      then show ?thesis
        using ok q dmono unfolding table_ok_def by (auto split: if_splits)
    qed
  moreover have "length buf' = nat (len1 d * len2 d)"
    using len length_set_value4[OF f p len] by (simp add: buf')
  ultimately show "table_ok d buf'"
    unfolding table_ok_def by blast
qed

lemma get_value4_filled:
  assumes "table_ok d buf" "in_table d p1 p2" "filled d buf p1 p2"
  shows "get_value4 d buf p1 p2 = push_bit 2 (cost d p1 p2)"
    and "get_direction d buf p1 p2 = dirn d p1 p2"
proof -
  have c: "get_cell d buf p1 p2 = cell_of d p1 p2"
    using assms by (simp add: table_ok_def)
  show "get_value4 d buf p1 p2 = push_bit 2 (cost d p1 p2)"
    using Direction_to_int_range[of "dirn d p1 p2"]
    by (simp add: get_value4_def c cell_of_def kDirectionMask_eq cell_value_part')
  show "get_direction d buf p1 p2 = dirn d p1 p2"
    using Direction_to_int_range[of "dirn d p1 p2"]
    by (simp add: get_direction_def c cell_of_def kDirectionMask_eq cell_flag_part
        Direction_of_to_int)
qed


lemma push_bit_succ: "push_bit 2 (c::int) + 4 = push_bit 2 (c + 1)"
  by (simp add: push_bit_eq_mult)

lemma push_bit_2_less: "push_bit 2 (a::int) < push_bit 2 b \<longleftrightarrow> a < b"
  by (simp add: push_bit_eq_mult)

lemma push_bit_2_eq: "push_bit 2 (a::int) = push_bit 2 b \<longleftrightarrow> a = b"
  by (simp add: push_bit_eq_mult)

lemma cost_upper:
  "p1 \<le> len1 d \<Longrightarrow> p2 \<le> len2 d \<Longrightarrow> cost d p1 p2 \<le> (len1 d - p1) + (len2 d - p2)"
proof (induction d p1 p2 rule: cost.induct)
  case (1 d p1 p2)
  show ?case
    using 1 by (subst cost.simps) (auto simp: min_def)
qed

lemma int32_shifted:
  assumes "0 \<le> c" "c < 536870912"
  shows "int32 (push_bit 2 c) = push_bit 2 c"
  using assms by (intro int32_id) (simp_all add: push_bit_eq_mult)

lemma int32_shifted_succ:
  assumes "0 \<le> c" "c + 1 < 536870912"
  shows "int32 (push_bit 2 c + push_bit 2 1) = push_bit 2 (c + 1)"
proof -
  have "push_bit 2 c + push_bit 2 1 = push_bit 2 (c + 1)" by (simp add: push_bit_eq_mult)
  then show ?thesis using int32_shifted[of "c + 1"] assms by simp
qed

lemma cost_fits:
  assumes "fits_int32 (len1 d) (len2 d)" "0 \<le> p1" "p1 \<le> len1 d" "0 \<le> p2" "p2 \<le> len2 d"
  shows "0 \<le> cost d p1 p2" "cost d p1 p2 < 536870912"
  using cost_nonneg[of p1 d p2] cost_upper[of p1 d p2] fits_int32D[OF assms(1)] assms(2-)
  by simp_all

lemma CompareUpToTail_correct:
  "fits_int32 (len1 d) (len2 d) \<Longrightarrow> table_ok d buf \<Longrightarrow>
   0 \<le> p1 \<Longrightarrow> p1 \<le> len1 d \<Longrightarrow> 0 \<le> p2 \<Longrightarrow> p2 \<le> len2 d \<Longrightarrow>
   memo_post d buf p1 p2 (CompareUpToTail d buf p1 p2)"
proof (induction d buf p1 p2 rule: CompareUpToTail.induct)
  case (1 d buf p1 p2)
  note f = \<open>fits_int32 (len1 d) (len2 d)\<close>
  note ok = \<open>table_ok d buf\<close>
  note b = fits_int32D[OF f]
  note pr = \<open>0 \<le> p1\<close> \<open>p1 \<le> len1 d\<close> \<open>0 \<le> p2\<close> \<open>p2 \<le> len2 d\<close>
  show ?case
  proof (cases "p1 < len1 d \<and> p2 < len2 d")
    case False
    then have nt: "\<not> in_table d p1 p2" by (auto simp: in_table_def)
    have c: "cost d p1 p2 = (if p1 < len1 d then len1 d - p1 else len2 d - p2)"
      using False by (subst cost.simps) auto
    have "int32 (len1 d - p1) = len1 d - p1" "int32 (len2 d - p2) = len2 d - p2"
      using pr b by (intro int32_id; simp)+
    moreover have "int32 (push_bit 2 (cost d p1 p2)) = push_bit 2 (cost d p1 p2)"
      using cost_fits[OF f pr] by (rule int32_shifted)
    ultimately have "CompareUpToTail d buf p1 p2 = (push_bit 2 (cost d p1 p2), buf)"
      using False c by (subst CompareUpToTail.simps) (auto simp: kDirectionSizeBits_def)
    then show ?thesis using ok nt by (simp add: memo_post_def done_at_def)
  next
    case True
    then have it: "in_table d p1 p2" using pr by (simp add: in_table_def)
    show ?thesis
    proof (cases "filled d buf p1 p2")
      case True
      then have "CompareUpToTail d buf p1 p2 = (get_value4 d buf p1 p2, buf)"
        using it by (subst CompareUpToTail.simps) (auto simp: filled_def in_table_def Let_def)
      then show ?thesis
        using ok it True get_value4_filled(1)[OF ok it True]
        by (simp add: memo_post_def done_at_def)
    next
      case False
      then have empty: "get_value4 d buf p1 p2 = kEmptyCellValue" by (simp add: filled_def)
      show ?thesis
      proof (cases "Equals (input d) p1 p2")
        case True
        obtain r buf1 where c1: "CompareUpToTail d buf (p1 + 1) (p2 + 1) = (r, buf1)"
          by (cases "CompareUpToTail d buf (p1 + 1) (p2 + 1)")
        have "memo_post d buf (p1 + 1) (p2 + 1) (CompareUpToTail d buf (p1 + 1) (p2 + 1))"
          using "1.IH"(1)[OF _ _ refl] it empty True ok f pr
          by (simp add: in_table_def)
        then have p: "r = push_bit 2 (cost d (p1 + 1) (p2 + 1))" "table_ok d buf1"
          "\<And>q1 q2. in_table d q1 q2 \<Longrightarrow> filled d buf q1 q2 \<Longrightarrow> filled d buf1 q1 q2"
          "done_at d buf1 (p1 + 1) (p2 + 1)"
          by (simp_all add: memo_post_def c1)
        have cst: "cost d p1 p2 = cost d (p1 + 1) (p2 + 1)"
          using it True by (subst cost.simps) (simp add: in_table_def)
        have dr: "dirn d p1 p2 = EQ" using True by (simp add: dirn_def)
        have res: "CompareUpToTail d buf p1 p2 =
           (push_bit 2 (cost d p1 p2),
            set_value4_and_dir d buf1 p1 p2 (push_bit 2 (cost d p1 p2)) (dirn d p1 p2))"
          using it empty True c1 p(1) cst dr
          by (subst CompareUpToTail.simps) (simp add: in_table_def)
        have s: "if Equals (input d) p1 p2 then done_at d buf1 (p1 + 1) (p2 + 1)
               else done_at d buf1 (p1 + 1) p2 \<and> done_at d buf1 p1 (p2 + 1)"
          using True p(4) by simp
        show ?thesis
          using table_ok_set[OF f p(2) it s refl] p(3)
          by (auto simp: memo_post_def res done_at_def)
      next
        case False
        obtain r1 buf1 where c1: "CompareUpToTail d buf (p1 + 1) p2 = (r1, buf1)"
          by (cases "CompareUpToTail d buf (p1 + 1) p2")
        obtain r2 buf2 where c2: "CompareUpToTail d buf1 p1 (p2 + 1) = (r2, buf2)"
          by (cases "CompareUpToTail d buf1 p1 (p2 + 1)")
        have "memo_post d buf (p1 + 1) p2 (CompareUpToTail d buf (p1 + 1) p2)"
          using "1.IH"(2)[OF _ _ refl] it empty False ok f pr
          by (simp add: in_table_def)
        then have p: "r1 = push_bit 2 (cost d (p1 + 1) p2)" "table_ok d buf1"
          "\<And>q1 q2. in_table d q1 q2 \<Longrightarrow> filled d buf q1 q2 \<Longrightarrow> filled d buf1 q1 q2"
          "done_at d buf1 (p1 + 1) p2"
          by (simp_all add: memo_post_def c1)
        have "memo_post d buf1 p1 (p2 + 1) (CompareUpToTail d buf1 p1 (p2 + 1))"
          using "1.IH"(3)[OF _ _ refl _ _ c1[symmetric]] it empty False p(2) f pr
          by (simp add: in_table_def)
        then have q: "r2 = push_bit 2 (cost d p1 (p2 + 1))" "table_ok d buf2"
          "\<And>q1 q2. in_table d q1 q2 \<Longrightarrow> filled d buf1 q1 q2 \<Longrightarrow> filled d buf2 q1 q2"
          "done_at d buf2 p1 (p2 + 1)"
          by (simp_all add: memo_post_def c2)
        have cst: "cost d p1 p2 = min (cost d (p1 + 1) p2) (cost d p1 (p2 + 1)) + 1"
          using it False by (subst cost.simps) (simp add: in_table_def)
        have u1: "0 \<le> cost d (p1 + 1) p2" "cost d (p1 + 1) p2 + 1 < 536870912"
          using cost_nonneg[of "p1 + 1" d p2] cost_upper[of "p1 + 1" d p2] b pr it
          by (simp_all add: in_table_def)
        have u2: "0 \<le> cost d p1 (p2 + 1)" "cost d p1 (p2 + 1) + 1 < 536870912"
          using cost_nonneg[of p1 d "p2 + 1"] cost_upper[of p1 d "p2 + 1"] b pr it
          by (simp_all add: in_table_def)
        have w: "int32 (r1 + push_bit kDirectionSizeBits 1) = push_bit 2 (cost d (p1 + 1) p2 + 1)"
          "int32 (r2 + push_bit kDirectionSizeBits 1) = push_bit 2 (cost d p1 (p2 + 1) + 1)"
          unfolding p(1) q(1) kDirectionSizeBits_def
          by (rule int32_shifted_succ[OF u1] int32_shifted_succ[OF u2])+
        have res: "CompareUpToTail d buf p1 p2 =
           (push_bit 2 (cost d p1 p2),
            set_value4_and_dir d buf2 p1 p2 (push_bit 2 (cost d p1 p2)) (dirn d p1 p2))"
          using it empty False
          by (subst CompareUpToTail.simps, unfold c1 c2 prod.case Let_def w)
            (auto simp: in_table_def push_bit_2_less push_bit_2_eq cst dirn_def)
        have "done_at d buf2 (p1 + 1) p2" using p(4) q(3) by (auto simp: done_at_def)
        then have s: "if Equals (input d) p1 p2 then done_at d buf2 (p1 + 1) (p2 + 1)
               else done_at d buf2 (p1 + 1) p2 \<and> done_at d buf2 p1 (p2 + 1)"
          using False q(4) by simp
        show ?thesis
          using table_ok_set[OF f q(2) it s refl] p(3) q(3)
          by (auto simp: memo_post_def res done_at_def)
      qed
    qed
  qed
qed

subsection \<open>The loop of SaveResult follows the path of the recurrence\<close>

lemma feed_Nil [simp]: "feed ac w [] = w"
  by (simp add: feed_def)

lemma feed_Cons [simp]: "feed ac w (s # ss) = feed ac (apply_step ac w s) ss"
  by (simp add: feed_def)

lemma feed_append: "feed ac w (ss @ ts) = feed ac (feed ac w ss) ts"
  by (simp add: feed_def)

lemma table_ok_succ:
  assumes "table_ok d buf" "in_table d p1 p2" "filled d buf p1 p2"
  shows "Equals (input d) p1 p2 \<Longrightarrow> done_at d buf (p1 + 1) (p2 + 1)"
    and "\<not> Equals (input d) p1 p2 \<Longrightarrow> done_at d buf (p1 + 1) p2"
    and "\<not> Equals (input d) p1 p2 \<Longrightarrow> done_at d buf p1 (p2 + 1)"
  using assms unfolding table_ok_def by (auto split: if_splits)

lemma dirn_EQ_iff: "dirn d p1 p2 = EQ \<longleftrightarrow> Equals (input d) p1 p2"
  by (simp add: dirn_def)

lemma SaveResult_loop_path:
  "table_ok d buf \<Longrightarrow> done_at d buf p1 p2 \<Longrightarrow> 0 \<le> p1 \<Longrightarrow> 0 \<le> p2 \<Longrightarrow>
   SaveResult_loop ac d buf w p1 p2 = feed ac w (path d p1 p2)"
proof (induction d p1 p2 arbitrary: w rule: path.induct)
  case (1 d p1 p2)
  note ok = \<open>table_ok d buf\<close>
  show ?case
  proof (cases "p1 < len1 d \<and> p2 < len2 d")
    case False
    then show ?thesis
      by (subst SaveResult_loop.simps, subst path.simps)
        (auto simp: SaveResult_body_def)
  next
    case True
    then have it: "in_table d p1 p2" using 1 by (simp add: in_table_def)
    then have fl: "filled d buf p1 p2" using \<open>done_at d buf p1 p2\<close> by (simp add: done_at_def)
    have gd: "get_direction d buf p1 p2 = dirn d p1 p2"
      by (rule get_value4_filled(2)[OF ok it fl])
    note succ = table_ok_succ[OF ok it fl]
    show ?thesis
    proof (cases "dirn d p1 p2")
      case EQ
      then have "done_at d buf (p1 + 1) (p2 + 1)" using succ(1) by (simp add: dirn_EQ_iff)
      then have "SaveResult_loop ac d buf (eq ac w) (p1 + 1) (p2 + 1) =
          feed ac (eq ac w) (path d (p1 + 1) (p2 + 1))"
        using "1.IH"(1)[of "eq ac w"] True EQ ok "1.prems" by simp
      then show ?thesis
        using True EQ gd
        by (subst SaveResult_loop.simps, subst path.simps) (simp add: SaveResult_body_def)
    next
      case SKIP1
      then have "\<not> Equals (input d) p1 p2" using dirn_EQ_iff[of d p1 p2] by simp
      then have "done_at d buf (p1 + 1) p2" using succ(2) by simp
      then have "SaveResult_loop ac d buf (skip1 1 w) (p1 + 1) p2 =
          feed ac (skip1 1 w) (path d (p1 + 1) p2)"
        using "1.IH"(2)[of "skip1 1 w"] True SKIP1 ok "1.prems" by simp
      then show ?thesis
        using True SKIP1 gd
        by (subst SaveResult_loop.simps, subst path.simps) (simp add: SaveResult_body_def)
    next
      case SKIP2
      then have "\<not> Equals (input d) p1 p2" using dirn_EQ_iff[of d p1 p2] by simp
      then have "done_at d buf p1 (p2 + 1)" using succ(3) by simp
      then have "SaveResult_loop ac d buf (skip2 1 w) p1 (p2 + 1) =
          feed ac (skip2 1 w) (path d p1 (p2 + 1))"
        using "1.IH"(3)[of "skip2 1 w"] True SKIP2 ok "1.prems" by simp
      then show ?thesis
        using True SKIP2 gd
        by (subst SaveResult_loop.simps, subst path.simps) (simp add: SaveResult_body_def)
    next
      case SKIP_ANY
      then have "\<not> Equals (input d) p1 p2" using dirn_EQ_iff[of d p1 p2] by simp
      then have "done_at d buf p1 (p2 + 1)" using succ(3) by simp
      then have "SaveResult_loop ac d buf (skip2 1 w) p1 (p2 + 1) =
          feed ac (skip2 1 w) (path d p1 (p2 + 1))"
        using "1.IH"(4)[of "skip2 1 w"] True SKIP_ANY ok "1.prems" by simp
      then show ?thesis
        using True SKIP_ANY gd
        by (subst SaveResult_loop.simps, subst path.simps) (simp add: SaveResult_body_def)
    qed
  qed
qed

lemma FillTable_ok:
  assumes "fits_int32 (len1 d) (len2 d)"
  shows "table_ok d (FillTable d (Initialize d)) \<and> done_at d (FillTable d (Initialize d)) 0 0"
  using CompareUpToTail_correct[OF assms Initialize_ok[OF assms], of 0 0] fits_int32D[OF assms]
  by (simp add: memo_post_def FillTable_def)

text \<open>With a length that is not positive the loop stops at once and no cell is read.\<close>

lemma SaveResult_loop_no_cell:
  assumes "len1 d \<le> 0 \<or> len2 d \<le> 0"
  shows "SaveResult_loop ac d buf w 0 0 = feed ac w (path d 0 0)"
  using assms
  by (subst SaveResult_loop.simps, subst path.simps) (auto simp: SaveResult_body_def)

lemma CalculateDifference_feed:
  assumes "GetLength1 inp \<le> 0 \<or> GetLength2 inp \<le> 0 \<or>
           fits_int32 (GetLength1 inp) (GetLength2 inp)"
  shows "CalculateDifference ac inp cw =
     chunk_writer (close ac (feed ac (ResultWriter_new cw) (path (Differencer_new inp) 0 0)))"
proof (cases "GetLength1 inp \<le> 0 \<or> GetLength2 inp \<le> 0")
  case True
  then have "len1 (Differencer_new inp) \<le> 0 \<or> len2 (Differencer_new inp) \<le> 0"
    by (simp add: Differencer_new_def)
  then show ?thesis
    by (simp add: CalculateDifference_def SaveResult_def Let_def SaveResult_loop_no_cell)
next
  case False
  then have "fits_int32 (len1 (Differencer_new inp)) (len2 (Differencer_new inp))"
    using assms by (simp add: Differencer_new_def)
  from FillTable_ok[OF this] show ?thesis
    by (simp add: CalculateDifference_def SaveResult_def Let_def SaveResult_loop_path)
qed

subsection \<open>Any sink sees the chunks of the recording sink, in order\<close>

lemma replay_snoc: "replay ac cw (cs @ [(a, b, l1, l2)]) = ac a b l1 l2 (replay ac cw cs)"
  by (simp add: replay_def)

lemma replay_append: "replay ac cw (cs @ ds) = replay ac (replay ac cw cs) ds"
  by (simp add: replay_def)

lemma replay_Nil [simp]: "replay ac cw [] = cw"
  by (simp add: replay_def)

lemma sim_Flush: "sim ac cw w wl \<Longrightarrow> sim ac cw (FlushChunk ac w) (FlushChunk record_chunk wl)"
  by (simp add: sim_def FlushChunk_def record_chunk_def replay_snoc)

lemma sim_Start: "sim ac cw w wl \<Longrightarrow> sim ac cw (StartChunk w) (StartChunk wl)"
  by (simp add: sim_def StartChunk_def)

lemma sim_step: "sim ac cw w wl \<Longrightarrow> sim ac cw (apply_step ac w s) (apply_step record_chunk wl s)"
proof (cases s)
  case StepEq
  assume "sim ac cw w wl"
  from sim_Flush[OF this] show ?thesis
    unfolding StepEq by (simp add: eq_def Let_def sim_def)
next
  case (StepSkip1 n)
  assume "sim ac cw w wl"
  from sim_Start[OF this] show ?thesis
    unfolding StepSkip1 by (simp add: skip1_def Let_def sim_def)
next
  case (StepSkip2 n)
  assume "sim ac cw w wl"
  from sim_Start[OF this] show ?thesis
    unfolding StepSkip2 by (simp add: skip2_def Let_def sim_def)
qed

lemma sim_feed: "sim ac cw w wl \<Longrightarrow> sim ac cw (feed ac w ss) (feed record_chunk wl ss)"
  by (induction ss arbitrary: w wl) (simp_all add: sim_step)

lemma sim_body:
  assumes "sim ac cw w wl"
  shows "case (SaveResult_body ac d buf w p1 p2, SaveResult_body record_chunk d buf wl p1 p2) of
           (Continue w' q1 q2, Continue wl' r1 r2) \<Rightarrow> sim ac cw w' wl' \<and> q1 = r1 \<and> q2 = r2
         | (Break w', Break wl') \<Rightarrow> sim ac cw w' wl'
         | _ \<Rightarrow> False"
  using sim_step[OF assms, of StepEq] sim_step[OF assms, of "StepSkip1 n" for n]
    sim_step[OF assms, of "StepSkip2 n" for n] assms
  by (simp add: SaveResult_body_def split: Direction.splits)

lemma sim_loop:
  "sim ac cw w wl \<Longrightarrow>
   sim ac cw (SaveResult_loop ac d buf w p1 p2) (SaveResult_loop record_chunk d buf wl p1 p2)"
proof (induction ac d buf w p1 p2 arbitrary: wl rule: SaveResult_loop.induct)
  case (1 ac d buf w p1 p2)
  note b = sim_body[OF "1.prems", of d buf p1 p2]
  show ?case
  proof (cases "SaveResult_body ac d buf w p1 p2")
    case (Continue w' q1 q2)
    then obtain wl' where c: "SaveResult_body record_chunk d buf wl p1 p2 = Continue wl' q1 q2"
      and s: "sim ac cw w' wl'"
      using b by (cases "SaveResult_body record_chunk d buf wl p1 p2") auto
    have "SaveResult_loop ac d buf w p1 p2 = SaveResult_loop ac d buf w' q1 q2"
      by (subst SaveResult_loop.simps) (simp add: Continue)
    moreover have "SaveResult_loop record_chunk d buf wl p1 p2 =
        SaveResult_loop record_chunk d buf wl' q1 q2"
      by (subst SaveResult_loop.simps) (simp add: c)
    ultimately show ?thesis using "1.IH"[OF Continue s] by simp
  next
    case (Break w')
    then obtain wl' where c: "SaveResult_body record_chunk d buf wl p1 p2 = Break wl'"
      and s: "sim ac cw w' wl'"
      using b by (cases "SaveResult_body record_chunk d buf wl p1 p2") auto
    have "SaveResult_loop ac d buf w p1 p2 = w'"
      by (subst SaveResult_loop.simps) (simp add: Break)
    moreover have "SaveResult_loop record_chunk d buf wl p1 p2 = wl'"
      by (subst SaveResult_loop.simps) (simp add: c)
    ultimately show ?thesis using s by simp
  qed
qed

text \<open>
  Whatever the table holds, a run hands to any sink the chunks that the same run hands
  to the recording sink.
\<close>

lemma CalculateDifference_replay:
  "CalculateDifference ac inp cw = replay ac cw (CalculateDifference record_chunk inp [])"
proof -
  have "sim ac cw (ResultWriter_new cw) (ResultWriter_new [])"
    by (simp add: sim_def ResultWriter_new_def)
  from sim_Flush[OF sim_loop[OF this]] show ?thesis
    by (simp add: CalculateDifference_def SaveResult_def Let_def close_def sim_def)
qed

subsection \<open>The writer computes \<open>merged\<close>\<close>

lemma open_of_Start:
  "open_of (StartChunk w) = started (open_of w) (pos1 w) (pos2 w)"
  by (simp add: open_of_def StartChunk_def)

lemma writer_merged:
  "chunk_writer (close record_chunk (feed record_chunk wl ss)) =
     chunk_writer wl @ merged (open_of wl) (pos1 wl) (pos2 wl) ss"
proof (induction ss arbitrary: wl)
  case Nil
  show ?case
    by (simp add: close_def FlushChunk_def open_of_def record_chunk_def)
next
  case (Cons s ss)
  show ?case
  proof (cases s)
    case StepEq
    show ?thesis
      unfolding StepEq feed_Cons apply_step.simps Cons.IH
      by (simp add: eq_def FlushChunk_def open_of_def record_chunk_def Let_def)
  next
    case (StepSkip1 n)
    show ?thesis
      unfolding StepSkip1 feed_Cons apply_step.simps Cons.IH
      by (simp add: skip1_def StartChunk_def open_of_def Let_def)
  next
    case (StepSkip2 n)
    show ?thesis
      unfolding StepSkip2 feed_Cons apply_step.simps Cons.IH
      by (simp add: skip2_def StartChunk_def open_of_def Let_def)
  qed
qed

lemma diff_chunks_merged:
  "diff_chunks inp = merged None 0 0 (path (Differencer_new inp) 0 0)"
  by (simp add: diff_chunks_def)

text \<open>When the table fits, the engine emits the chunks of the recurrence.\<close>

lemma CalculateDifference_chunks:
  assumes "GetLength1 inp \<le> 0 \<or> GetLength2 inp \<le> 0 \<or>
           fits_int32 (GetLength1 inp) (GetLength2 inp)"
  shows "CalculateDifference record_chunk inp [] = diff_chunks inp"
  by (simp add: diff_chunks_def CalculateDifference_feed[OF assms] writer_merged
      ResultWriter_new_def open_of_def)

lemma CalculateDifference_diff_chunks:
  assumes "GetLength1 inp \<le> 0 \<or> GetLength2 inp \<le> 0 \<or>
           fits_int32 (GetLength1 inp) (GetLength2 inp)"
  shows "CalculateDifference ac inp cw = replay ac cw (diff_chunks inp)"
  using CalculateDifference_replay[of ac inp cw] CalculateDifference_chunks[OF assms] by simp

subsection \<open>One chunk for each maximal run of skips\<close>

lemma length_merged:
  "length (merged opn p1 p2 ss) =
     (if opn \<noteq> None \<and> (ss = [] \<or> \<not> is_skip (hd ss)) then Suc (runs ss) else runs ss)"
proof (induction ss arbitrary: opn p1 p2 rule: runs.induct)
  case 1
  show ?case by (cases opn) auto
next
  case (2 s)
  show ?case by (cases s; cases opn) auto
next
  case (3 s t ss)
  show ?case
  proof (cases s)
    case StepEq
    then show ?thesis using 3[of None] by (cases opn) auto
  next
    case (StepSkip1 n)
    then show ?thesis using 3[of "started opn p1 p2"] by (cases opn) auto
  next
    case (StepSkip2 n)
    then show ?thesis using 3[of "started opn p1 p2"] by (cases opn) auto
  qed
qed

subsection \<open>The path of the recurrence is an alignment of cost \<open>cost\<close>\<close>

lemma path_aligns:
  "p1 \<le> len1 d \<Longrightarrow> p2 \<le> len2 d \<Longrightarrow>
   aligns (Equals (input d)) (len1 d) (len2 d) p1 p2 (path d p1 p2)"
proof (induction d p1 p2 rule: path.induct)
  case (1 d p1 p2)
  show ?case
  proof (cases "p1 < len1 d \<and> p2 < len2 d")
    case False
    then show ?thesis using "1.prems" by (subst path.simps) auto
  next
    case True
    show ?thesis
    proof (cases "dirn d p1 p2")
      case EQ
      then show ?thesis
        using True "1.IH"(1) dirn_EQ_iff[of d p1 p2] by (subst path.simps) simp
    next
      case SKIP1
      then show ?thesis using True "1.IH"(2) "1.prems" by (subst path.simps) simp
    next
      case SKIP2
      then show ?thesis using True "1.IH"(3) "1.prems" by (subst path.simps) simp
    next
      case SKIP_ANY
      then show ?thesis using True "1.IH"(4) "1.prems" by (subst path.simps) simp
    qed
  qed
qed

lemma skips_path: "skips (path d p1 p2) = cost d p1 p2"
proof (induction d p1 p2 rule: path.induct)
  case (1 d p1 p2)
  show ?case
  proof (cases "p1 < len1 d \<and> p2 < len2 d")
    case False
    then show ?thesis by (subst path.simps, subst cost.simps) auto
  next
    case True
    show ?thesis
    proof (cases "dirn d p1 p2")
      case EQ
      then show ?thesis
        using True "1.IH"(1) dirn_EQ_iff[of d p1 p2]
        by (subst path.simps, subst cost.simps) simp
    next
      case SKIP1
      then have "\<not> Equals (input d) p1 p2" "cost d (p1 + 1) p2 < cost d p1 (p2 + 1)"
        by (auto simp: dirn_def split: if_splits)
      then show ?thesis
        using True SKIP1 "1.IH"(2) by (subst path.simps, subst cost.simps) simp
    next
      case SKIP2
      then have "\<not> Equals (input d) p1 p2" "cost d p1 (p2 + 1) < cost d (p1 + 1) p2"
        by (auto simp: dirn_def split: if_splits)
      then show ?thesis
        using True SKIP2 "1.IH"(3) by (subst path.simps, subst cost.simps) simp
    next
      case SKIP_ANY
      then have "\<not> Equals (input d) p1 p2" "cost d p1 (p2 + 1) = cost d (p1 + 1) p2"
        by (auto simp: dirn_def split: if_splits)
      then show ?thesis
        using True SKIP_ANY "1.IH"(4) by (subst path.simps, subst cost.simps) simp
    qed
  qed
qed

subsection \<open>Properties of \<open>merged\<close> on alignments\<close>

lemma diag_0 [simp]: "diag E p1 p2 0"
  by (simp add: diag_def)

lemma diag_neg: "n \<le> 0 \<Longrightarrow> diag E p1 p2 n"
  by (simp add: diag_def)

lemma diag_step:
  assumes "E p1 p2" "diag E (p1 + 1) (p2 + 1) n"
  shows "diag E p1 p2 (n + 1)"
  unfolding diag_def
proof
  fix k assume k: "k \<in> {0..<n + 1}"
  show "E (p1 + k) (p2 + k)"
  proof (cases "k = 0")
    case True then show ?thesis using assms(1) by simp
  next
    case False
    then have "k - 1 \<in> {0..<n}" using k by auto
    then have "E (p1 + 1 + (k - 1)) (p2 + 1 + (k - 1))" using assms(2) unfolding diag_def by blast
    then show ?thesis by (simp add: algebra_simps)
  qed
qed

lemma diag_append:
  assumes "diag E p1 p2 m" "diag E (p1 + m) (p2 + m) n" "0 \<le> m"
  shows "diag E p1 p2 (m + n)"
  unfolding diag_def
proof
  fix k assume k: "k \<in> {0..<m + n}"
  show "E (p1 + k) (p2 + k)"
  proof (cases "k < m")
    case True then show ?thesis using assms(1) k by (simp add: diag_def)
  next
    case False
    then have "k - m \<in> {0..<n}" using k by auto
    then have "E (p1 + m + (k - m)) (p2 + m + (k - m))" using assms(2) unfolding diag_def by blast
    then show ?thesis by (simp add: algebra_simps)
  qed
qed

lemma covers_extend:
  assumes "E p1 p2" "covers E (p1 + 1) (p2 + 1) e1 e2 cs"
  shows "covers E p1 p2 e1 e2 cs"
proof (cases cs)
  case Nil
  then have "diag E (p1 + 1) (p2 + 1) (e1 - p1 - 1)" using assms(2) by (simp add: algebra_simps)
  from diag_step[OF assms(1) this] show ?thesis using assms(2) Nil by simp
next
  case (Cons c cs')
  obtain a b l1 l2 where c: "c = (a, b, l1, l2)" by (cases c)
  then have "diag E (p1 + 1) (p2 + 1) (a - p1 - 1)"
    using assms(2) Cons by (simp add: algebra_simps)
  from diag_step[OF assms(1) this] show ?thesis using assms(2) Cons c by simp
qed

lemma merged_covers:
  "aligns E e1 e2 p1 p2 ss \<Longrightarrow> fst (begin_of opn p1 p2) \<le> p1 \<Longrightarrow> snd (begin_of opn p1 p2) \<le> p2 \<Longrightarrow>
   covers E (fst (begin_of opn p1 p2)) (snd (begin_of opn p1 p2)) e1 e2 (merged opn p1 p2 ss)"
proof (induction ss arbitrary: opn p1 p2)
  case Nil
  then show ?case by (cases opn) auto
next
  case (Cons s ss)
  show ?case
  proof (cases s)
    case StepEq
    then have "covers E (p1 + 1) (p2 + 1) e1 e2 (merged None (p1 + 1) (p2 + 1) ss)"
      using Cons.IH[of "p1 + 1" "p2 + 1" None] Cons.prems by simp
    moreover have "E p1 p2" using Cons.prems StepEq by simp
    ultimately have "covers E p1 p2 e1 e2 (merged None (p1 + 1) (p2 + 1) ss)"
      by (rule covers_extend[rotated])
    then show ?thesis using StepEq Cons.prems by (cases opn) auto
  next
    case (StepSkip1 n)
    then show ?thesis
      using Cons.IH[of "p1 + n" p2 "started opn p1 p2"] Cons.prems by (cases opn) auto
  next
    case (StepSkip2 n)
    then show ?thesis
      using Cons.IH[of p1 "p2 + n" "started opn p1 p2"] Cons.prems by (cases opn) auto
  qed
qed

lemma merged_nondegenerate:
  "aligns E e1 e2 p1 p2 ss \<Longrightarrow>
   (opn \<noteq> None \<longrightarrow> fst (begin_of opn p1 p2) \<le> p1 \<and> snd (begin_of opn p1 p2) \<le> p2 \<and>
      fst (begin_of opn p1 p2) + snd (begin_of opn p1 p2) < p1 + p2) \<Longrightarrow>
   \<forall>c\<in>set (merged opn p1 p2 ss). nondegenerate c"
proof (induction ss arbitrary: opn p1 p2)
  case Nil
  then show ?case by (cases opn) (auto simp: nondegenerate_def)
next
  case (Cons s ss)
  show ?case
  proof (cases s)
    case StepEq
    then show ?thesis
      using Cons.IH[of "p1 + 1" "p2 + 1" None] Cons.prems
      by (cases opn) (auto simp: nondegenerate_def)
  next
    case (StepSkip1 n)
    then show ?thesis
      using Cons.IH[of "p1 + n" p2 "started opn p1 p2"] Cons.prems by (cases opn) auto
  next
    case (StepSkip2 n)
    then show ?thesis
      using Cons.IH[of p1 "p2 + n" "started opn p1 p2"] Cons.prems by (cases opn) auto
  qed
qed

lemma chunks_size_Nil [simp]: "chunks_size [] = 0"
  by (simp add: chunks_size_def)

lemma chunks_size_Cons [simp]: "chunks_size ((a, b, l1, l2) # cs) = l1 + l2 + chunks_size cs"
  by (simp add: chunks_size_def)

lemma chunks_size_append [simp]: "chunks_size (cs @ ds) = chunks_size cs + chunks_size ds"
  by (simp add: chunks_size_def)

lemma merged_size:
  "chunks_size (merged opn p1 p2 ss) =
     (p1 - fst (begin_of opn p1 p2)) + (p2 - snd (begin_of opn p1 p2)) + skips ss"
proof (induction ss arbitrary: opn p1 p2)
  case Nil
  show ?case by (cases opn) auto
next
  case (Cons s ss)
  show ?case
  proof (cases s)
    case StepEq
    then show ?thesis using Cons.IH[of None "p1 + 1" "p2 + 1"] by (cases opn) auto
  next
    case (StepSkip1 n)
    then show ?thesis using Cons.IH[of "started opn p1 p2" "p1 + n" p2] by (cases opn) auto
  next
    case (StepSkip2 n)
    then show ?thesis using Cons.IH[of "started opn p1 p2" p1 "p2 + n"] by (cases opn) auto
  qed
qed

lemma len_Differencer_new [simp]:
  "len1 (Differencer_new inp) = GetLength1 inp" "len2 (Differencer_new inp) = GetLength2 inp"
  "input (Differencer_new inp) = inp"
  by (simp_all add: Differencer_new_def)

lemma diff_chunks_covers:
  assumes "0 \<le> GetLength1 inp" "0 \<le> GetLength2 inp"
  shows "covers (Equals inp) 0 0 (GetLength1 inp) (GetLength2 inp) (diff_chunks inp)"
  using merged_covers[OF path_aligns[of 0 "Differencer_new inp" 0], of None] assms
  by (simp add: diff_chunks_merged)

lemma diff_chunks_nondegenerate:
  assumes "0 \<le> GetLength1 inp" "0 \<le> GetLength2 inp"
  shows "\<forall>c\<in>set (diff_chunks inp). nondegenerate c"
  using merged_nondegenerate[OF path_aligns[of 0 "Differencer_new inp" 0], of None] assms
  by (simp add: diff_chunks_merged)

lemma diff_chunks_size:
  "chunks_size (diff_chunks inp) = cost (Differencer_new inp) 0 0"
  by (simp add: diff_chunks_merged merged_size skips_path)

subsection \<open>The cost of the recurrence is minimal\<close>

lemma cost_end1: "len1 d \<le> p1 \<Longrightarrow> cost d p1 p2 = len2 d - p2"
  by (subst cost.simps) simp

lemma cost_end2: "p2 = len2 d \<Longrightarrow> p1 \<le> len1 d \<Longrightarrow> cost d p1 p2 = len1 d - p1"
  by (subst cost.simps) simp

lemma cost_eq_step:
  "p1 < len1 d \<Longrightarrow> p2 < len2 d \<Longrightarrow> Equals (input d) p1 p2 \<Longrightarrow>
   cost d p1 p2 = cost d (p1 + 1) (p2 + 1)"
  by (subst cost.simps) simp

lemma cost_ne_step:
  "p1 < len1 d \<Longrightarrow> p2 < len2 d \<Longrightarrow> \<not> Equals (input d) p1 p2 \<Longrightarrow>
   cost d p1 p2 = min (cost d (p1 + 1) p2) (cost d p1 (p2 + 1)) + 1"
  by (subst cost.simps) simp

lemma cost_lipschitz:
  "p1 \<le> len1 d \<Longrightarrow> p2 \<le> len2 d \<Longrightarrow>
   (p1 < len1 d \<longrightarrow> cost d p1 p2 \<le> cost d (p1 + 1) p2 + 1 \<and>
                     cost d (p1 + 1) p2 \<le> cost d p1 p2 + 1) \<and>
   (p2 < len2 d \<longrightarrow> cost d p1 p2 \<le> cost d p1 (p2 + 1) + 1 \<and>
                     cost d p1 (p2 + 1) \<le> cost d p1 p2 + 1)"
proof (induction "nat (len1 d - p1) + nat (len2 d - p2)" arbitrary: p1 p2 rule: less_induct)
  case less
  note b = less.prems
  show ?case
  proof (cases "p1 < len1 d \<and> p2 < len2 d")
    case False
    show ?thesis
    proof (cases "p1 < len1 d")
      case True
      then have p2: "p2 = len2 d" using False b by simp
      have "cost d p1 p2 = len1 d - p1" "cost d (p1 + 1) p2 = len1 d - (p1 + 1)"
        using p2 True by (simp_all add: cost_end2)
      then show ?thesis using p2 by simp
    next
      case False
      then have p1: "p1 = len1 d" using b by simp
      have "cost d p1 p2 = len2 d - p2" "cost d p1 (p2 + 1) = len2 d - (p2 + 1)"
        using p1 by (simp_all add: cost_end1)
      then show ?thesis using p1 by simp
    qed
  next
    case True
    have ih1: "cost d (p1 + 1) p2 \<le> cost d (p1 + 1) (p2 + 1) + 1 \<and>
               cost d (p1 + 1) (p2 + 1) \<le> cost d (p1 + 1) p2 + 1"
      using less.hyps[of "p1 + 1" p2] True by simp
    have ih2: "cost d p1 (p2 + 1) \<le> cost d (p1 + 1) (p2 + 1) + 1 \<and>
               cost d (p1 + 1) (p2 + 1) \<le> cost d p1 (p2 + 1) + 1"
      using less.hyps[of p1 "p2 + 1"] True by simp
    show ?thesis
    proof (cases "Equals (input d) p1 p2")
      case E: True
      have "cost d p1 p2 = cost d (p1 + 1) (p2 + 1)"
        using True E by (simp add: cost_eq_step)
      then show ?thesis using ih1 ih2 by simp
    next
      case E: False
      have "cost d p1 p2 = min (cost d (p1 + 1) p2) (cost d p1 (p2 + 1)) + 1"
        using True E by (simp add: cost_ne_step)
      then show ?thesis using ih1 ih2 by (simp add: min_def)
    qed
  qed
qed

lemma cost_skip1:
  "p1 + int n \<le> len1 d \<Longrightarrow> p2 \<le> len2 d \<Longrightarrow> cost d p1 p2 \<le> cost d (p1 + int n) p2 + int n"
proof (induction n arbitrary: p1)
  case 0
  show ?case by simp
next
  case (Suc n)
  have "cost d p1 p2 \<le> cost d (p1 + 1) p2 + 1"
    using cost_lipschitz[of p1 d p2] Suc.prems by simp
  moreover have "cost d (p1 + 1) p2 \<le> cost d (p1 + 1 + int n) p2 + int n"
    using Suc.IH[of "p1 + 1"] Suc.prems by simp
  ultimately show ?case by (simp add: algebra_simps)
qed

lemma cost_skip2:
  "p1 \<le> len1 d \<Longrightarrow> p2 + int n \<le> len2 d \<Longrightarrow> cost d p1 p2 \<le> cost d p1 (p2 + int n) + int n"
proof (induction n arbitrary: p2)
  case 0
  show ?case by simp
next
  case (Suc n)
  have "cost d p1 p2 \<le> cost d p1 (p2 + 1) + 1"
    using cost_lipschitz[of p1 d p2] Suc.prems by simp
  moreover have "cost d p1 (p2 + 1) \<le> cost d p1 (p2 + 1 + int n) + int n"
    using Suc.IH[of "p2 + 1"] Suc.prems by simp
  ultimately show ?case by (simp add: algebra_simps)
qed

lemma cost_diag:
  "diag (Equals (input d)) p1 p2 (int n) \<Longrightarrow> p1 + int n \<le> len1 d \<Longrightarrow> p2 + int n \<le> len2 d \<Longrightarrow>
   cost d p1 p2 = cost d (p1 + int n) (p2 + int n)"
proof (induction n arbitrary: p1 p2)
  case 0
  show ?case by simp
next
  case (Suc n)
  have e: "Equals (input d) p1 p2"
    using Suc.prems(1) by (auto simp: diag_def dest: bspec[where x = 0])
  have "diag (Equals (input d)) (p1 + 1) (p2 + 1) (int n)"
    unfolding diag_def
  proof
    fix k assume "k \<in> {0..<int n}"
    then have "k + 1 \<in> {0..<int (Suc n)}" by auto
    then have "Equals (input d) (p1 + (k + 1)) (p2 + (k + 1))"
      using Suc.prems(1) unfolding diag_def by blast
    then show "Equals (input d) (p1 + 1 + k) (p2 + 1 + k)" by (simp add: algebra_simps)
  qed
  then have "cost d (p1 + 1) (p2 + 1) = cost d (p1 + 1 + int n) (p2 + 1 + int n)"
    using Suc.IH[of "p1 + 1" "p2 + 1"] Suc.prems by simp
  moreover have "cost d p1 p2 = cost d (p1 + 1) (p2 + 1)"
    using e Suc.prems by (intro cost_eq_step) auto
  ultimately show ?case by (simp add: algebra_simps)
qed

lemma aligns_bounds: "aligns E e1 e2 p1 p2 ss \<Longrightarrow> p1 \<le> e1 \<and> p2 \<le> e2"
proof (induction ss arbitrary: p1 p2)
  case Nil
  then show ?case by simp
next
  case (Cons s ss)
  show ?case
  proof (cases s)
    case StepEq
    then show ?thesis using Cons.IH[of "p1 + 1" "p2 + 1"] Cons.prems by simp
  next
    case (StepSkip1 n)
    then show ?thesis using Cons.IH[of "p1 + n" p2] Cons.prems by simp
  next
    case (StepSkip2 n)
    then show ?thesis using Cons.IH[of p1 "p2 + n"] Cons.prems by simp
  qed
qed

lemma aligns_lower:
  "aligns (Equals (input d)) (len1 d) (len2 d) p1 p2 ss \<Longrightarrow> cost d p1 p2 \<le> skips ss"
proof (induction ss arbitrary: p1 p2)
  case Nil
  then show ?case by (simp add: cost_end1)
next
  case (Cons s ss)
  show ?case
  proof (cases s)
    case StepEq
    then have a: "Equals (input d) p1 p2"
      "aligns (Equals (input d)) (len1 d) (len2 d) (p1 + 1) (p2 + 1) ss"
      using Cons.prems by simp_all
    from aligns_bounds[OF a(2)] have "p1 < len1 d" "p2 < len2 d" by simp_all
    then have "cost d p1 p2 = cost d (p1 + 1) (p2 + 1)" using a(1) by (simp add: cost_eq_step)
    then show ?thesis using Cons.IH[OF a(2)] StepEq by simp
  next
    case (StepSkip1 n)
    then have a: "1 \<le> n" "aligns (Equals (input d)) (len1 d) (len2 d) (p1 + n) p2 ss"
      using Cons.prems by simp_all
    from aligns_bounds[OF a(2)] have b: "p1 + n \<le> len1 d" "p2 \<le> len2 d" by simp_all
    have "cost d p1 p2 \<le> cost d (p1 + int (nat n)) p2 + int (nat n)"
      using a(1) b by (intro cost_skip1) auto
    then show ?thesis using Cons.IH[OF a(2)] StepSkip1 a(1) by simp
  next
    case (StepSkip2 n)
    then have a: "1 \<le> n" "aligns (Equals (input d)) (len1 d) (len2 d) p1 (p2 + n) ss"
      using Cons.prems by simp_all
    from aligns_bounds[OF a(2)] have b: "p1 \<le> len1 d" "p2 + n \<le> len2 d" by simp_all
    have "cost d p1 p2 \<le> cost d p1 (p2 + int (nat n)) + int (nat n)"
      using a(1) b by (intro cost_skip2) auto
    then show ?thesis using Cons.IH[OF a(2)] StepSkip2 a(1) by simp
  qed
qed

lemma covers_bounds: "covers E p1 p2 e1 e2 cs \<Longrightarrow> p1 \<le> e1 \<and> p2 \<le> e2"
proof (induction cs arbitrary: p1 p2)
  case Nil
  then show ?case by simp
next
  case (Cons c cs)
  obtain a b l1 l2 where c: "c = (a, b, l1, l2)" by (cases c)
  show ?case using Cons.IH[of "a + l1" "b + l2"] Cons.prems c by simp
qed

lemma covers_lower:
  "covers (Equals (input d)) p1 p2 (len1 d) (len2 d) cs \<Longrightarrow> cost d p1 p2 \<le> chunks_size cs"
proof (induction cs arbitrary: p1 p2)
  case Nil
  then have "cost d p1 p2 = cost d (p1 + int (nat (len1 d - p1))) (p2 + int (nat (len1 d - p1)))"
    by (intro cost_diag) auto
  also have "\<dots> = 0" using Nil by (simp add: cost_end1)
  finally show ?case by simp
next
  case (Cons c cs)
  obtain a b l1 l2 where c: "c = (a, b, l1, l2)" by (cases c)
  have h: "p1 \<le> a" "b - p2 = a - p1" "diag (Equals (input d)) p1 p2 (a - p1)" "0 \<le> l1" "0 \<le> l2"
    "covers (Equals (input d)) (a + l1) (b + l2) (len1 d) (len2 d) cs"
    using Cons.prems unfolding c covers.simps by blast+
  from covers_bounds[OF h(6)] have bd: "a + l1 \<le> len1 d" "b + l2 \<le> len2 d" by simp_all
  have n: "int (nat (a - p1)) = a - p1" using h(1) by simp
  have e: "p1 + int (nat (a - p1)) = a" "p2 + int (nat (a - p1)) = b"
    unfolding n using h(2) by linarith+
  have "cost d p1 p2 = cost d (p1 + int (nat (a - p1))) (p2 + int (nat (a - p1)))"
  proof (rule cost_diag)
    show "diag (Equals (input d)) p1 p2 (int (nat (a - p1)))" unfolding n by (rule h(3))
    show "p1 + int (nat (a - p1)) \<le> len1 d" unfolding e using bd h by linarith
    show "p2 + int (nat (a - p1)) \<le> len2 d" unfolding e using bd h by linarith
  qed
  also have "\<dots> = cost d a b" unfolding e ..
  also have "\<dots> \<le> cost d (a + int (nat l1)) b + int (nat l1)"
    using h bd by (intro cost_skip1) auto
  also have "\<dots> \<le> cost d (a + int (nat l1)) (b + int (nat l2)) + int (nat l2) + int (nat l1)"
    using cost_skip2[of "a + int (nat l1)" d b "nat l2"] h bd by simp
  also have "\<dots> = cost d (a + l1) (b + l2) + l1 + l2" using h by simp
  also have "\<dots> \<le> chunks_size cs + l1 + l2" using Cons.IH[OF h(6)] by simp
  finally show ?case using c by simp
qed

subsection \<open>Alignments of two sequences and their common subsequences\<close>

lemma Get_in [simp]: "n < length s \<Longrightarrow> Get s (int n) = Some (s ! n)"
  by (simp add: Get_def)

text \<open>
  \<open>E\<close> compares the elements of the sequences \<open>s1\<close> and \<open>s2\<close>, whatever their type.
\<close>

lemma aligns_to_subseq:
  assumes rep: "\<forall>a<length s1. \<forall>b<length s2. E (int a) (int b) \<longleftrightarrow> s1 ! a = s2 ! b"
  shows "aligns E (int (length s1)) (int (length s2)) (int p1) (int p2) ss \<Longrightarrow>
   \<exists>zs. subseq zs (drop p1 s1) \<and> subseq zs (drop p2 s2) \<and>
        2 * int (length zs) + skips ss = (int (length s1) - int p1) + (int (length s2) - int p2)"
proof (induction ss arbitrary: p1 p2)
  case Nil
  then show ?case by (intro exI[of _ "[]"]) simp
next
  case (Cons s ss)
  show ?case
  proof (cases s)
    case StepEq
    then have a: "E (int p1) (int p2)"
      "aligns E (int (length s1)) (int (length s2)) (int (Suc p1)) (int (Suc p2)) ss"
      using Cons.prems by (simp_all add: add.commute)
    from aligns_bounds[OF a(2)] have b: "p1 < length s1" "p2 < length s2" by simp_all
    then have e: "s1 ! p1 = s2 ! p2" using a(1) rep by simp
    obtain zs where zs: "subseq zs (drop (Suc p1) s1)" "subseq zs (drop (Suc p2) s2)"
      "2 * int (length zs) + skips ss =
         (int (length s1) - int (Suc p1)) + (int (length s2) - int (Suc p2))"
      using Cons.IH[OF a(2)] by blast
    have "subseq (s1 ! p1 # zs) (drop p1 s1)"
      using zs(1) b(1) by (simp add: Cons_nth_drop_Suc[symmetric])
    moreover have "subseq (s1 ! p1 # zs) (drop p2 s2)"
      using zs(2) b(2) e by (simp add: Cons_nth_drop_Suc[symmetric])
    moreover have "2 * int (length (s1 ! p1 # zs)) + skips (s # ss) =
        (int (length s1) - int p1) + (int (length s2) - int p2)"
      using zs(3) StepEq by simp
    ultimately show ?thesis by blast
  next
    case (StepSkip1 n)
    then have a: "1 \<le> n"
      "aligns E (int (length s1)) (int (length s2)) (int (p1 + nat n)) (int p2) ss"
      using Cons.prems by simp_all
    obtain zs where zs: "subseq zs (drop (p1 + nat n) s1)" "subseq zs (drop p2 s2)"
      "2 * int (length zs) + skips ss =
         (int (length s1) - int (p1 + nat n)) + (int (length s2) - int p2)"
      using Cons.IH[OF a(2)] by blast
    have "drop p1 s1 = take (nat n) (drop p1 s1) @ drop (p1 + nat n) s1"
      by (metis append_take_drop_id drop_drop add.commute)
    then have "subseq zs (drop p1 s1)" using zs(1) by (metis subseq_drop_many)
    moreover have "2 * int (length zs) + skips (s # ss) =
        (int (length s1) - int p1) + (int (length s2) - int p2)"
      using zs(3) StepSkip1 a(1) by simp
    ultimately show ?thesis using zs(2) by blast
  next
    case (StepSkip2 n)
    then have a: "1 \<le> n"
      "aligns E (int (length s1)) (int (length s2)) (int p1) (int (p2 + nat n)) ss"
      using Cons.prems by simp_all
    obtain zs where zs: "subseq zs (drop p1 s1)" "subseq zs (drop (p2 + nat n) s2)"
      "2 * int (length zs) + skips ss =
         (int (length s1) - int p1) + (int (length s2) - int (p2 + nat n))"
      using Cons.IH[OF a(2)] by blast
    have "drop p2 s2 = take (nat n) (drop p2 s2) @ drop (p2 + nat n) s2"
      by (metis append_take_drop_id drop_drop add.commute)
    then have "subseq zs (drop p2 s2)" using zs(2) by (metis subseq_drop_many)
    moreover have "2 * int (length zs) + skips (s # ss) =
        (int (length s1) - int p1) + (int (length s2) - int p2)"
      using zs(3) StepSkip2 a(1) by simp
    ultimately show ?thesis using zs(1) by blast
  qed
qed

lemma aligns_prepend_skips:
  assumes "aligns E e1 e2 (p1 + int m) (p2 + int n) ss"
  shows "\<exists>ss'. aligns E e1 e2 p1 p2 ss' \<and> skips ss' = int m + int n + skips ss"
proof -
  let ?a = "if m = 0 then [] else [StepSkip1 (int m)]"
  let ?b = "if n = 0 then [] else [StepSkip2 (int n)]"
  have "aligns E e1 e2 p1 p2 (?a @ ?b @ ss)" using assms by auto
  moreover have "skips (?a @ ?b @ ss) = int m + int n + skips ss" by auto
  ultimately show ?thesis by blast
qed

lemma subseq_to_aligns:
  assumes rep: "\<forall>a<length s1. \<forall>b<length s2. E (int a) (int b) \<longleftrightarrow> s1 ! a = s2 ! b"
  shows "subseq zs (drop p1 s1) \<Longrightarrow> subseq zs (drop p2 s2) \<Longrightarrow> p1 \<le> length s1 \<Longrightarrow> p2 \<le> length s2 \<Longrightarrow>
   \<exists>ss. aligns E (int (length s1)) (int (length s2)) (int p1) (int p2) ss \<and>
        skips ss + 2 * int (length zs) = (int (length s1) - int p1) + (int (length s2) - int p2)"
proof (induction zs arbitrary: p1 p2)
  case Nil
  have "aligns E (int (length s1)) (int (length s2))
      (int p1 + int (length s1 - p1)) (int p2 + int (length s2 - p2)) []"
    using Nil by simp
  from aligns_prepend_skips[OF this] show ?case using Nil by auto
next
  case (Cons z zs)
  obtain us vs where u: "drop p1 s1 = us @ z # vs" "subseq zs vs"
    using list_emb_ConsD[OF Cons.prems(1)] by blast
  obtain us' vs' where u': "drop p2 s2 = us' @ z # vs'" "subseq zs vs'"
    using list_emb_ConsD[OF Cons.prems(2)] by blast
  let ?q1 = "p1 + length us" and ?q2 = "p2 + length us'"
  have l1: "length s1 - p1 = length us + Suc (length vs)"
    using arg_cong[OF u(1), of length] by simp
  have l2: "length s2 - p2 = length us' + Suc (length vs')"
    using arg_cong[OF u'(1), of length] by simp
  have q: "?q1 < length s1" "?q2 < length s2" using l1 l2 by simp_all
  have "(drop p1 s1) ! length us = z" "(drop p2 s2) ! length us' = z"
    unfolding u u' by simp_all
  then have z: "s1 ! ?q1 = z" "s2 ! ?q2 = z" using Cons.prems by simp_all
  have "E (int ?q1) (int ?q2) \<longleftrightarrow> s1 ! ?q1 = s2 ! ?q2" using rep q by blast
  then have Eq: "E (int ?q1) (int ?q2)" using z by (simp only:)
  have "drop (length us + 1) (drop p1 s1) = vs" "drop (length us' + 1) (drop p2 s2) = vs'"
    unfolding u u' by simp_all
  then have d: "drop (Suc ?q1) s1 = vs" "drop (Suc ?q2) s2 = vs'"
    by (simp_all add: add.commute)
  obtain ss where ss:
    "aligns E (int (length s1)) (int (length s2)) (int (Suc ?q1)) (int (Suc ?q2)) ss"
    "skips ss + 2 * int (length zs) =
       (int (length s1) - int (Suc ?q1)) + (int (length s2) - int (Suc ?q2))"
    using Cons.IH[of "Suc ?q1" "Suc ?q2"] u(2) u'(2) d q by auto
  have "aligns E (int (length s1)) (int (length s2))
       (int p1 + int (length us)) (int p2 + int (length us')) (StepEq # ss)"
    using ss(1) Eq by (simp add: add.commute add.left_commute)
  from aligns_prepend_skips[OF this] obtain ss' where
    "aligns E (int (length s1)) (int (length s2)) (int p1) (int p2) ss'"
    "skips ss' = int (length us) + int (length us') + skips (StepEq # ss)"
    by blast
  then show ?case using ss(2) by (intro exI[of _ ss']) simp
qed

subsection \<open>Line ends\<close>

lemma line_ends_from_range: "e \<in> set (line_ends_from s i) \<Longrightarrow> i \<le> e \<and> e < i + int (length s)"
  by (induction s arbitrary: i) (fastforce split: if_splits)+

lemma line_ends_from_sorted: "sorted_wrt (<) (line_ends_from s i)"
proof (induction s arbitrary: i)
  case Nil
  show ?case by simp
next
  case (Cons c cs)
  show ?case using Cons.IH[of "i + 1"] line_ends_from_range[of _ cs "i + 1"] by fastforce
qed

lemma valid_CalculateLineEnds: "valid_ends (CalculateLineEnds s) (int (length s))"
  using line_ends_from_range[of _ s 0] line_ends_from_sorted[of s 0]
  by (auto simp: valid_ends_def CalculateLineEnds_def)

lemma valid_wrapper_new: "valid_wrapper (LineEndsWrapper_new s)"
  by (simp add: valid_wrapper_def LineEndsWrapper_new_def valid_CalculateLineEnds)

lemma string_len_new [simp]: "string_len (LineEndsWrapper_new s) = int (length s)"
  by (simp add: LineEndsWrapper_new_def)

lemma GetLineStart_0 [simp]: "GetLineStart w 0 = 0"
  by (simp add: GetLineStart_def)

lemma GetLineStart_succ: "0 \<le> k \<Longrightarrow> GetLineStart w (k + 1) = GetLineEnd w k"
  by (simp add: GetLineStart_def)

lemma GetLineStart_last: "GetLineStart w (LineEndsWrapper_length w) = string_len w"
  by (simp add: GetLineStart_def GetLineEnd_def LineEndsWrapper_length_def)

lemma string_len_nonneg: "valid_wrapper w \<Longrightarrow> ends_array w \<noteq> [] \<Longrightarrow> 0 < string_len w"
  by (cases "ends_array w") (auto simp: valid_wrapper_def valid_ends_def)

lemma GetLineEnd_mono_step:
  assumes "valid_wrapper w" "0 \<le> k" "k < int (length (ends_array w))"
  shows "GetLineEnd w k \<le> GetLineEnd w (k + 1)"
proof (cases "k + 1 = int (length (ends_array w))")
  case True
  have "ends_array w ! nat k \<in> set (ends_array w)" using assms by simp
  then have "ends_array w ! nat k < string_len w"
    using assms(1) by (simp add: valid_wrapper_def valid_ends_def)
  then show ?thesis using True assms by (simp add: GetLineEnd_def GetPosAfterNewLine_def)
next
  case False
  then have "nat k < nat (k + 1)" "nat (k + 1) < length (ends_array w)" using assms by auto
  then have "ends_array w ! nat k < ends_array w ! nat (k + 1)"
    using assms(1) by (simp add: valid_wrapper_def valid_ends_def sorted_wrt_nth_less)
  then show ?thesis using False assms by (simp add: GetLineEnd_def GetPosAfterNewLine_def)
qed

lemma GetLineEnd_0_nonneg:
  assumes "valid_wrapper w" "0 \<le> string_len w"
  shows "0 \<le> GetLineEnd w 0"
proof (cases "ends_array w")
  case Nil
  then show ?thesis using assms by (simp add: GetLineEnd_def)
next
  case (Cons e es)
  then have "0 \<le> e" using assms(1) by (simp add: valid_wrapper_def valid_ends_def)
  then show ?thesis using Cons by (simp add: GetLineEnd_def GetPosAfterNewLine_def)
qed

lemma GetLineStart_mono_step:
  assumes "valid_wrapper w" "0 \<le> string_len w" "0 \<le> k" "k < LineEndsWrapper_length w"
  shows "GetLineStart w k \<le> GetLineStart w (k + 1)"
proof (cases "k = 0")
  case True
  then show ?thesis using GetLineEnd_0_nonneg[OF assms(1,2)] by (simp add: GetLineStart_def)
next
  case False
  then have "GetLineEnd w (k - 1) \<le> GetLineEnd w (k - 1 + 1)"
    using assms by (intro GetLineEnd_mono_step) (auto simp: LineEndsWrapper_length_def)
  then show ?thesis using False assms by (simp add: GetLineStart_def)
qed

lemma GetLineStart_mono_nat:
  assumes "valid_wrapper w" "0 \<le> string_len w" "0 \<le> k" "k + int n \<le> LineEndsWrapper_length w"
  shows "GetLineStart w k \<le> GetLineStart w (k + int n)"
  using assms(4)
proof (induction n)
  case 0
  show ?case by simp
next
  case (Suc n)
  have "GetLineStart w (k + int n) \<le> GetLineStart w (k + int n + 1)"
    using assms(1,2,3) Suc.prems by (intro GetLineStart_mono_step) auto
  then show ?case using Suc by (simp add: algebra_simps)
qed

lemma GetLineStart_mono:
  assumes "valid_wrapper w" "0 \<le> string_len w" "0 \<le> k" "k \<le> k'" "k' \<le> LineEndsWrapper_length w"
  shows "GetLineStart w k \<le> GetLineStart w k'"
  using GetLineStart_mono_nat[OF assms(1,2,3), of "nat (k' - k)"] assms by simp

lemma GetLineStart_range:
  assumes "valid_wrapper w" "0 \<le> string_len w" "0 \<le> k" "k \<le> LineEndsWrapper_length w"
  shows "0 \<le> GetLineStart w k \<and> GetLineStart w k \<le> string_len w"
proof -
  have "0 \<le> LineEndsWrapper_length w" by (simp add: LineEndsWrapper_length_def)
  then show ?thesis
    using GetLineStart_mono[OF assms(1,2), of 0 k] assms
      GetLineStart_mono[OF assms(1,2,3), of "LineEndsWrapper_length w"]
    by (simp add: GetLineStart_last)
qed

subsection \<open>\<open>CompareSubstrings\<close>\<close>

lemma CompareSubstrings_loop_iff:
  "CompareSubstrings_loop s1 p1 s2 p2 len i \<longleftrightarrow>
     (\<forall>k. i \<le> k \<and> k < len \<longrightarrow> Get s1 (k + p1) = Get s2 (k + p2))"
proof (induction s1 p1 s2 p2 len i rule: CompareSubstrings_loop.induct)
  case (1 s1 p1 s2 p2 len i)
  show ?case
  proof (cases "i < len")
    case False
    then show ?thesis by (subst CompareSubstrings_loop.simps) auto
  next
    case True
    show ?thesis
    proof (cases "Get s1 (i + p1) = Get s2 (i + p2)")
      case False
      then show ?thesis using True by (subst CompareSubstrings_loop.simps) auto
    next
      case eq: True
      have "(\<forall>k. i \<le> k \<and> k < len \<longrightarrow> Get s1 (k + p1) = Get s2 (k + p2)) \<longleftrightarrow>
            (\<forall>k. i + 1 \<le> k \<and> k < len \<longrightarrow> Get s1 (k + p1) = Get s2 (k + p2))"
        using eq by (metis add1_zle_eq order_le_less)
      then show ?thesis
        using True eq "1.IH" by (subst CompareSubstrings_loop.simps) simp
    qed
  qed
qed

lemma CompareSubstrings_diag:
  "CompareSubstrings s1 p1 s2 p2 len \<longleftrightarrow> diag (same_char s1 s2) p1 p2 len"
  by (auto simp: CompareSubstrings_def CompareSubstrings_loop_iff diag_def same_char_def add.commute)

subsection \<open>Composing coverings\<close>

lemma covers_prepend_gap:
  assumes "diag E p1 p2 n" "0 \<le> n" "covers E (p1 + n) (p2 + n) e1 e2 cs"
  shows "covers E p1 p2 e1 e2 cs"
proof (cases cs)
  case Nil
  have "diag E p1 p2 (n + (e1 - (p1 + n)))"
    using assms Nil by (intro diag_append) auto
  then show ?thesis using assms Nil by (simp add: algebra_simps)
next
  case (Cons c cs')
  obtain a b l1 l2 where c: "c = (a, b, l1, l2)" by (cases c)
  have "diag E p1 p2 (n + (a - (p1 + n)))"
    using assms Cons c by (intro diag_append) auto
  then show ?thesis using assms Cons c by (simp add: algebra_simps)
qed

lemma covers_append:
  "covers E p1 p2 m1 m2 cs \<Longrightarrow> covers E m1 m2 e1 e2 ds \<Longrightarrow> covers E p1 p2 e1 e2 (cs @ ds)"
proof (induction cs arbitrary: p1 p2)
  case Nil
  have g: "diag E p1 p2 (m1 - p1)" "p1 \<le> m1" "m2 - p2 = m1 - p1"
    using Nil(1) unfolding covers.simps by blast+
  have "p1 + (m1 - p1) = m1" "p2 + (m1 - p1) = m2" using g(3) by linarith+
  then have "covers E (p1 + (m1 - p1)) (p2 + (m1 - p1)) e1 e2 ds" using Nil(2) by simp
  moreover have "0 \<le> m1 - p1" using g(2) by simp
  ultimately show ?case using covers_prepend_gap[OF g(1)] by simp
next
  case (Cons c cs)
  obtain a b l1 l2 where c: "c = (a, b, l1, l2)" by (cases c)
  show ?case using Cons.IH[of "a + l1" "b + l2"] Cons.prems c by simp
qed

lemma shift_simp [simp]: "shift o1 o2 (a, b, l1, l2) = (a + o1, b + o2, l1, l2)"
  by (simp add: shift_def)

lemma covers_single: "0 \<le> l1 \<Longrightarrow> 0 \<le> l2 \<Longrightarrow> covers E a b (a + l1) (b + l2) [(a, b, l1, l2)]"
  by simp

lemma diag_shift: "diag (\<lambda>i j. E (o1 + i) (o2 + j)) p1 p2 n = diag E (o1 + p1) (o2 + p2) n"
  by (simp add: diag_def add.assoc)

lemma covers_shift:
  "covers (\<lambda>i j. E (o1 + i) (o2 + j)) p1 p2 e1 e2 cs \<Longrightarrow>
   covers E (o1 + p1) (o2 + p2) (o1 + e1) (o2 + e2) (map (shift o1 o2) cs)"
proof (induction cs arbitrary: p1 p2)
  case Nil
  then show ?case by (auto simp: diag_shift)
next
  case (Cons c cs)
  obtain a b l1 l2 where c: "c = (a, b, l1, l2)" by (cases c)
  have h: "p1 \<le> a" "b - p2 = a - p1" "diag (\<lambda>i j. E (o1 + i) (o2 + j)) p1 p2 (a - p1)"
    "0 \<le> l1" "0 \<le> l2" "covers (\<lambda>i j. E (o1 + i) (o2 + j)) (a + l1) (b + l2) e1 e2 cs"
    using Cons.prems unfolding c covers.simps by blast+
  have e: "a + o1 - (o1 + p1) = a - p1" "b + o2 - (o2 + p2) = b - p2"
    "a + o1 + l1 = o1 + (a + l1)" "b + o2 + l2 = o2 + (b + l2)"
    by simp_all
  have "diag E (o1 + p1) (o2 + p2) (a - p1)" using h(3) by (simp only: diag_shift)
  moreover note Cons.IH[OF h(6)] h(1,2,4,5)
  ultimately show ?case
    unfolding c list.map shift_simp covers.simps e by simp
qed

subsection \<open>What the two sinks write\<close>

lemma replay_Cons: "replay ac cw ((a, b, l1, l2) # cs) = replay ac (ac a b l1 l2 cw) cs"
  by (simp add: replay_def)

lemma replay_record: "replay record_chunk log cs = log @ cs"
proof (induction cs arbitrary: log)
  case Nil
  show ?case by simp
next
  case (Cons c cs)
  obtain a b l1 l2 where c: "c = (a, b, l1, l2)" by (cases c)
  show ?case unfolding c replay_Cons Cons.IH by (simp add: record_chunk_def)
qed

lemma replay_Tokens:
  "replay (TokensCompareOutput_AddChunk wc) t cs =
     t\<lparr>tok_array_writer :=
         replay wc (tok_array_writer t) (map (shift (tok_offset1 t) (tok_offset2 t)) cs)\<rparr>"
proof (induction cs arbitrary: t)
  case Nil
  show ?case by simp
next
  case (Cons c cs)
  obtain a b l1 l2 where c: "c = (a, b, l1, l2)" by (cases c)
  show ?case
    unfolding c replay_Cons Cons.IH
    by (simp add: TokensCompareOutput_AddChunk_def replay_Cons)
qed

text \<open>The table of a nested run, on two spans shorter than the limit, always fits.\<close>

lemma below_limit_fits:
  assumes "l1 < CHUNK_LEN_LIMIT" "l2 < CHUNK_LEN_LIMIT"
  shows "l1 \<le> 0 \<or> l2 \<le> 0 \<or> fits_int32 l1 l2"
proof (cases "0 < l1 \<and> 0 < l2")
  case True
  have "l1 * l2 \<le> 799 * 799"
    using assms True by (intro mult_mono) (simp_all add: CHUNK_LEN_LIMIT_def)
  then show ?thesis using assms True by (simp add: fits_int32_def CHUNK_LEN_LIMIT_def)
next
  case False
  then show ?thesis by auto
qed

lemma nested_run_chunks:
  assumes "l1 < CHUNK_LEN_LIMIT" "l2 < CHUNK_LEN_LIMIT"
  shows "CalculateDifference ac (TokensCompareInput s1 p1 l1 s2 p2 l2) cw =
           replay ac cw (diff_chunks (TokensCompareInput s1 p1 l1 s2 p2 l2))"
  using below_limit_fits[OF assms]
  by (intro CalculateDifference_diff_chunks) (simp add: TokensCompareInput_def)

lemma AddChunk_replay:
  "AddChunk wc a b l1 l2 out =
     out\<lparr>out_array_writer := replay wc (out_array_writer out) (out_chunks out (a, b, l1, l2))\<rparr>"
  by (simp add: AddChunk_def out_chunks_def chars_of_lines_def Let_def
      nested_run_chunks replay_Tokens replay_Cons)

lemma out_chunks_update [simp]:
  "out_chunks (out\<lparr>out_array_writer := w\<rparr>) = out_chunks out"
  by (rule ext) (simp add: out_chunks_def)

lemma replay_AddChunk:
  "replay (AddChunk wc) out cs =
     out\<lparr>out_array_writer := replay wc (out_array_writer out) (concat (map (out_chunks out) cs))\<rparr>"
proof (induction cs arbitrary: out)
  case Nil
  show ?case by simp
next
  case (Cons c cs)
  obtain a b l1 l2 where c: "c = (a, b, l1, l2)" by (cases c)
  show ?case
    unfolding c replay_Cons Cons.IH
    by (simp add: AddChunk_replay replay_append)
qed

subsection \<open>From equal lines to equal characters\<close>

lemma LineArray_Equals_line_eq:
  "LineArray_Equals a i j =
     line_eq (in_line_ends1 a) (in_line_ends2 a) (in_s1 a) (in_s2 a)
       (i + in_subrange_offset1 a) (j + in_subrange_offset2 a)"
  by (auto simp: LineArray_Equals_def line_eq_def Let_def CompareSubstrings_diag)

lemma diag_Suc:
  "diag E p1 p2 (int (Suc n)) \<longleftrightarrow> diag E p1 p2 (int n) \<and> E (p1 + int n) (p2 + int n)"
proof -
  have "{0..<int (Suc n)} = insert (int n) {0..<int n}" by auto
  then show ?thesis by (auto simp: diag_def)
qed

lemma line_diag_chars:
  assumes v: "valid_wrapper w1" "0 \<le> string_len w1" "valid_wrapper w2" "0 \<le> string_len w2"
    and a: "0 \<le> a" and b: "0 \<le> b"
  shows "diag (line_eq w1 w2 s1 s2) a b (int n) \<Longrightarrow>
         a + int n \<le> LineEndsWrapper_length w1 \<Longrightarrow> b + int n \<le> LineEndsWrapper_length w2 \<Longrightarrow>
         GetLineStart w2 (b + int n) - GetLineStart w2 b =
           GetLineStart w1 (a + int n) - GetLineStart w1 a \<and>
         diag (same_char s1 s2) (GetLineStart w1 a) (GetLineStart w2 b)
           (GetLineStart w1 (a + int n) - GetLineStart w1 a)"
proof (induction n)
  case 0
  show ?case by simp
next
  case (Suc n)
  let ?m = "GetLineStart w1 (a + int n) - GetLineStart w1 a"
  let ?r = "GetLineStart w1 (a + int (Suc n)) - GetLineStart w1 (a + int n)"
  have d: "diag (line_eq w1 w2 s1 s2) a b (int n)" "line_eq w1 w2 s1 s2 (a + int n) (b + int n)"
    using Suc.prems(1) unfolding diag_Suc by blast+
  have ih: "GetLineStart w2 (b + int n) - GetLineStart w2 b = ?m"
    "diag (same_char s1 s2) (GetLineStart w1 a) (GetLineStart w2 b) ?m"
    using Suc.IH[OF d(1)] Suc.prems by simp_all
  have e1: "GetLineEnd w1 (a + int n) = GetLineStart w1 (a + int (Suc n))"
    using GetLineStart_succ[of "a + int n" w1] a by (simp add: algebra_simps)
  have e2: "GetLineEnd w2 (b + int n) = GetLineStart w2 (b + int (Suc n))"
    using GetLineStart_succ[of "b + int n" w2] b by (simp add: algebra_simps)
  have le: "GetLineStart w2 (b + int (Suc n)) - GetLineStart w2 (b + int n) = ?r"
    "diag (same_char s1 s2) (GetLineStart w1 (a + int n)) (GetLineStart w2 (b + int n)) ?r"
    using d(2) unfolding line_eq_def e1 e2 by simp_all
  have m0: "0 \<le> ?m"
    using GetLineStart_mono_nat[OF v(1,2) a, of n] Suc.prems by simp
  have x: "GetLineStart w1 a + ?m = GetLineStart w1 (a + int n)" by simp
  have y: "GetLineStart w2 b + ?m = GetLineStart w2 (b + int n)" using ih(1) by linarith
  have z: "?m + ?r = GetLineStart w1 (a + int (Suc n)) - GetLineStart w1 a" by simp
  have "diag (same_char s1 s2) (GetLineStart w1 a + ?m) (GetLineStart w2 b + ?m) ?r"
    unfolding x y by (rule le(2))
  from diag_append[OF ih(2) this m0]
  have "diag (same_char s1 s2) (GetLineStart w1 a) (GetLineStart w2 b)
      (GetLineStart w1 (a + int (Suc n)) - GetLineStart w1 a)"
    unfolding z .
  moreover have "GetLineStart w2 (b + int (Suc n)) - GetLineStart w2 b =
      GetLineStart w1 (a + int (Suc n)) - GetLineStart w1 a"
    using ih(1) le(1) by linarith
  ultimately show ?case by simp
qed

lemma Equals_Tokens [simp]:
  "Equals (TokensCompareInput s1 o1 l1 s2 o2 l2) = (\<lambda>i j. same_char s1 s2 (o1 + i) (o2 + j))"
  "GetLength1 (TokensCompareInput s1 o1 l1 s2 o2 l2) = l1"
  "GetLength2 (TokensCompareInput s1 o1 l1 s2 o2 l2) = l2"
  by (simp_all add: TokensCompareInput_def same_char_def)

lemma chars_of_lines_covers:
  assumes v: "valid_wrapper w1" "0 \<le> string_len w1" "valid_wrapper w2" "0 \<le> string_len w2"
    and a: "0 \<le> a" "0 \<le> l1" "a + l1 \<le> LineEndsWrapper_length w1"
    and b: "0 \<le> b" "0 \<le> l2" "b + l2 \<le> LineEndsWrapper_length w2"
  shows "covers (same_char s1 s2) (GetLineStart w1 a) (GetLineStart w2 b)
           (GetLineStart w1 (a + l1)) (GetLineStart w2 (b + l2))
           (chars_of_lines w1 w2 s1 s2 (a, b, l1, l2))"
proof -
  let ?ca = "GetLineStart w1 a" and ?cb = "GetLineStart w2 b"
  let ?cl1 = "GetLineStart w1 (a + l1) - ?ca" and ?cl2 = "GetLineStart w2 (b + l2) - ?cb"
  have n: "0 \<le> ?cl1" "0 \<le> ?cl2"
    using GetLineStart_mono[OF v(1,2) a(1), of "a + l1"] a
      GetLineStart_mono[OF v(3,4) b(1), of "b + l2"] b by simp_all
  have e: "?ca + ?cl1 = GetLineStart w1 (a + l1)" "?cb + ?cl2 = GetLineStart w2 (b + l2)"
    by simp_all
  show ?thesis
  proof (cases "?cl1 < CHUNK_LEN_LIMIT \<and> ?cl2 < CHUNK_LEN_LIMIT")
    case False
    then have "chars_of_lines w1 w2 s1 s2 (a, b, l1, l2) = [(?ca, ?cb, ?cl1, ?cl2)]"
      by (auto simp: chars_of_lines_def Let_def)
    then show ?thesis using covers_single[OF n, of "same_char s1 s2" ?ca ?cb] unfolding e by simp
  next
    case True
    let ?tok = "TokensCompareInput s1 ?ca ?cl1 s2 ?cb ?cl2"
    have "chars_of_lines w1 w2 s1 s2 (a, b, l1, l2) = map (shift ?ca ?cb) (diff_chunks ?tok)"
      using True by (simp add: chars_of_lines_def Let_def)
    moreover have "covers (\<lambda>i j. same_char s1 s2 (?ca + i) (?cb + j)) 0 0 ?cl1 ?cl2 (diff_chunks ?tok)"
      using diff_chunks_covers[of ?tok] n by simp
    ultimately show ?thesis
      using covers_shift[of "same_char s1 s2" ?ca ?cb 0 0 ?cl1 ?cl2 "diff_chunks ?tok"]
      unfolding e by simp
  qed
qed

lemma lines_covers_chars:
  assumes v: "valid_wrapper w1" "0 \<le> string_len w1" "valid_wrapper w2" "0 \<le> string_len w2"
  shows "covers (line_eq w1 w2 s1 s2) p1 p2 e1 e2 lcs \<Longrightarrow> 0 \<le> p1 \<Longrightarrow> 0 \<le> p2 \<Longrightarrow>
         e1 \<le> LineEndsWrapper_length w1 \<Longrightarrow> e2 \<le> LineEndsWrapper_length w2 \<Longrightarrow>
         covers (same_char s1 s2) (GetLineStart w1 p1) (GetLineStart w2 p2)
           (GetLineStart w1 e1) (GetLineStart w2 e2)
           (concat (map (chars_of_lines w1 w2 s1 s2) lcs))"
proof (induction lcs arbitrary: p1 p2)
  case Nil
  have g: "p1 \<le> e1" "e2 - p2 = e1 - p1" "diag (line_eq w1 w2 s1 s2) p1 p2 (e1 - p1)"
    using Nil(1) unfolding covers.simps by blast+
  let ?n = "nat (e1 - p1)"
  have n: "int ?n = e1 - p1" "p1 + int ?n = e1" "p2 + int ?n = e2" using g(1,2) by linarith+
  have "diag (line_eq w1 w2 s1 s2) p1 p2 (int ?n)" unfolding n by (rule g(3))
  from line_diag_chars[OF v Nil(2,3) this, unfolded n(2) n(3)] Nil(4,5)
  have "GetLineStart w2 e2 - GetLineStart w2 p2 = GetLineStart w1 e1 - GetLineStart w1 p1 \<and>
        diag (same_char s1 s2) (GetLineStart w1 p1) (GetLineStart w2 p2)
          (GetLineStart w1 e1 - GetLineStart w1 p1)"
    by blast
  moreover have "GetLineStart w1 p1 \<le> GetLineStart w1 e1"
    using GetLineStart_mono[OF v(1,2) Nil(2) g(1) Nil(4)] .
  ultimately show ?case by simp
next
  case (Cons c lcs)
  obtain a b l1 l2 where c: "c = (a, b, l1, l2)" by (cases c)
  have g: "p1 \<le> a" "b - p2 = a - p1" "diag (line_eq w1 w2 s1 s2) p1 p2 (a - p1)"
    "0 \<le> l1" "0 \<le> l2" "covers (line_eq w1 w2 s1 s2) (a + l1) (b + l2) e1 e2 lcs"
    using Cons.prems(1) unfolding c covers.simps by blast+
  from covers_bounds[OF g(6)] have bd: "a + l1 \<le> e1" "b + l2 \<le> e2" by simp_all
  let ?n = "nat (a - p1)"
  have n: "int ?n = a - p1" "p1 + int ?n = a" "p2 + int ?n = b" using g(1,2) by linarith+
  have a0: "0 \<le> a" "0 \<le> b" using n Cons.prems(2,3) by linarith+
  have dg: "diag (line_eq w1 w2 s1 s2) p1 p2 (int ?n)" unfolding n by (rule g(3))
  have ab: "a \<le> LineEndsWrapper_length w1" "b \<le> LineEndsWrapper_length w2"
    using bd g(4,5) Cons.prems(4,5) by linarith+
  from line_diag_chars[OF v Cons.prems(2,3) dg, unfolded n(2) n(3), OF ab]
  have gap: "GetLineStart w2 b - GetLineStart w2 p2 = GetLineStart w1 a - GetLineStart w1 p1"
    "diag (same_char s1 s2) (GetLineStart w1 p1) (GetLineStart w2 p2)
       (GetLineStart w1 a - GetLineStart w1 p1)"
    by blast+
  have m0: "0 \<le> GetLineStart w1 a - GetLineStart w1 p1"
    using GetLineStart_mono[OF v(1,2) Cons.prems(2) g(1)] bd g(4) Cons.prems(4) by simp
  have ch: "covers (same_char s1 s2) (GetLineStart w1 a) (GetLineStart w2 b)
      (GetLineStart w1 (a + l1)) (GetLineStart w2 (b + l2)) (chars_of_lines w1 w2 s1 s2 (a, b, l1, l2))"
    using bd g(4,5) Cons.prems(4,5) a0 by (intro chars_of_lines_covers v) auto
  have rest: "covers (same_char s1 s2) (GetLineStart w1 (a + l1)) (GetLineStart w2 (b + l2))
      (GetLineStart w1 e1) (GetLineStart w2 e2) (concat (map (chars_of_lines w1 w2 s1 s2) lcs))"
    using Cons.IH[OF g(6)] a0 g(4,5) Cons.prems(4,5) by simp
  have x: "GetLineStart w1 p1 + (GetLineStart w1 a - GetLineStart w1 p1) = GetLineStart w1 a" by simp
  have y: "GetLineStart w2 p2 + (GetLineStart w1 a - GetLineStart w1 p1) = GetLineStart w2 b"
    using gap(1) by linarith
  have "covers (same_char s1 s2)
      (GetLineStart w1 p1 + (GetLineStart w1 a - GetLineStart w1 p1))
      (GetLineStart w2 p2 + (GetLineStart w1 a - GetLineStart w1 p1))
      (GetLineStart w1 e1) (GetLineStart w2 e2)
      (chars_of_lines w1 w2 s1 s2 (a, b, l1, l2) @ concat (map (chars_of_lines w1 w2 s1 s2) lcs))"
    unfolding x y by (rule covers_append[OF ch rest])
  from covers_prepend_gap[OF gap(2) m0 this] show ?case by (simp add: c)
qed

subsection \<open>\<open>NarrowDownInput\<close>\<close>

lemma diag_1: "diag E p1 p2 1 \<longleftrightarrow> E p1 p2"
proof -
  have "{0..<1::int} = {0}" by auto
  then show ?thesis by (simp add: diag_def)
qed

lemma common_prefix_loop_spec:
  "n \<le> lim \<Longrightarrow> 0 \<le> n \<Longrightarrow> diag (Equals inp) 0 0 n \<Longrightarrow>
   n \<le> common_prefix_loop inp lim n \<and> common_prefix_loop inp lim n \<le> lim \<and>
   diag (Equals inp) 0 0 (common_prefix_loop inp lim n)"
proof (induction inp lim n rule: common_prefix_loop.induct)
  case (1 inp lim n)
  show ?case
  proof (cases "n < lim \<and> Equals inp n n")
    case False
    then have "common_prefix_loop inp lim n = n"
      by (subst common_prefix_loop.simps) auto
    then show ?thesis using "1.prems" by simp
  next
    case True
    have "diag (Equals inp) (0 + n) (0 + n) 1"
      using True by (simp add: diag_1)
    from diag_append[OF "1.prems"(3) this "1.prems"(2)]
    have "diag (Equals inp) 0 0 (n + 1)" .
    then have "n + 1 \<le> common_prefix_loop inp lim (n + 1) \<and>
        common_prefix_loop inp lim (n + 1) \<le> lim \<and>
        diag (Equals inp) 0 0 (common_prefix_loop inp lim (n + 1))"
      using "1.IH" True "1.prems" by simp
    moreover have "common_prefix_loop inp lim n = common_prefix_loop inp lim (n + 1)"
      using True by (subst common_prefix_loop.simps) simp
    ultimately show ?thesis by simp
  qed
qed

lemma common_suffix_loop_spec:
  "n \<le> lim \<Longrightarrow> 0 \<le> n \<Longrightarrow> diag (Equals inp) (l1 - n) (l2 - n) n \<Longrightarrow>
   n \<le> common_suffix_loop inp l1 l2 lim n \<and> common_suffix_loop inp l1 l2 lim n \<le> lim \<and>
   diag (Equals inp) (l1 - common_suffix_loop inp l1 l2 lim n)
     (l2 - common_suffix_loop inp l1 l2 lim n) (common_suffix_loop inp l1 l2 lim n)"
proof (induction inp l1 l2 lim n rule: common_suffix_loop.induct)
  case (1 inp l1 l2 lim n)
  show ?case
  proof (cases "n < lim \<and> Equals inp (l1 - n - 1) (l2 - n - 1)")
    case False
    then have "common_suffix_loop inp l1 l2 lim n = n"
      by (subst common_suffix_loop.simps) auto
    then show ?thesis using "1.prems" by simp
  next
    case True
    have "diag (Equals inp) (l1 - n - 1 + 1) (l2 - n - 1 + 1) n"
      using "1.prems"(3) by simp
    from diag_step[OF conjunct2[OF True] this]
    have "diag (Equals inp) (l1 - (n + 1)) (l2 - (n + 1)) (n + 1)"
      by (simp add: algebra_simps)
    then have "n + 1 \<le> common_suffix_loop inp l1 l2 lim (n + 1) \<and>
        common_suffix_loop inp l1 l2 lim (n + 1) \<le> lim \<and>
        diag (Equals inp) (l1 - common_suffix_loop inp l1 l2 lim (n + 1))
          (l2 - common_suffix_loop inp l1 l2 lim (n + 1)) (common_suffix_loop inp l1 l2 lim (n + 1))"
      using "1.IH" True "1.prems" by simp
    moreover have "common_suffix_loop inp l1 l2 lim n = common_suffix_loop inp l1 l2 lim (n + 1)"
      using True by (subst common_suffix_loop.simps) simp
    ultimately show ?thesis by simp
  qed
qed

lemma length_pos [simp]: "0 < LineEndsWrapper_length w" "0 \<le> LineEndsWrapper_length w"
  by (simp_all add: LineEndsWrapper_length_def)

lemma out_chunks_fun:
  "out_chunks out =
     (\<lambda>c. chars_of_lines (out_line_ends1 out) (out_line_ends2 out) (out_s1 out) (out_s2 out)
        (shift (out_subrange_offset1 out) (out_subrange_offset2 out) c))"
  by (rule ext) (simp add: out_chunks_def)

lemma line_input_simps [simp]:
  "GetLength1 (LineArray_Input (line_input s1 s2)) = LineEndsWrapper_length (LineEndsWrapper_new s1)"
  "GetLength2 (LineArray_Input (line_input s1 s2)) = LineEndsWrapper_length (LineEndsWrapper_new s2)"
  "Equals (LineArray_Input (line_input s1 s2)) =
     line_eq (LineEndsWrapper_new s1) (LineEndsWrapper_new s2) s1 s2"
  by (simp_all add: LineArray_Input_def line_input_def LineArrayCompareInput_new_def
      LineArray_Equals_line_eq fun_eq_iff)

lemma prefix_facts:
  "0 \<le> common_prefix_len s1 s2"
  "common_prefix_len s1 s2 \<le> LineEndsWrapper_length (LineEndsWrapper_new s1)"
  "common_prefix_len s1 s2 \<le> LineEndsWrapper_length (LineEndsWrapper_new s2)"
  "diag (line_eq (LineEndsWrapper_new s1) (LineEndsWrapper_new s2) s1 s2) 0 0 (common_prefix_len s1 s2)"
  using common_prefix_loop_spec[of 0
      "min (LineEndsWrapper_length (LineEndsWrapper_new s1))
           (LineEndsWrapper_length (LineEndsWrapper_new s2))"
      "LineArray_Input (line_input s1 s2)"]
  by (simp_all add: common_prefix_len_def)

lemma suffix_facts:
  "0 \<le> common_suffix_len s1 s2"
  "common_suffix_len s1 s2 \<le> LineEndsWrapper_length (LineEndsWrapper_new s1) - common_prefix_len s1 s2"
  "common_suffix_len s1 s2 \<le> LineEndsWrapper_length (LineEndsWrapper_new s2) - common_prefix_len s1 s2"
  "diag (line_eq (LineEndsWrapper_new s1) (LineEndsWrapper_new s2) s1 s2)
     (LineEndsWrapper_length (LineEndsWrapper_new s1) - common_suffix_len s1 s2)
     (LineEndsWrapper_length (LineEndsWrapper_new s2) - common_suffix_len s1 s2)
     (common_suffix_len s1 s2)"
  using common_suffix_loop_spec[of 0
      "min (LineEndsWrapper_length (LineEndsWrapper_new s1) - common_prefix_len s1 s2)
           (LineEndsWrapper_length (LineEndsWrapper_new s2) - common_prefix_len s1 s2)"
      "LineArray_Input (line_input s1 s2)"
      "LineEndsWrapper_length (LineEndsWrapper_new s1)"
      "LineEndsWrapper_length (LineEndsWrapper_new s2)"]
    prefix_facts(2,3)[of s1 s2]
  by (simp_all add: common_suffix_len_def)

lemma NarrowDownInput_eq:
  "NarrowDownInput (line_input s1 s2)
     (TokenizingLineArrayCompareOutput_new w (LineEndsWrapper_new s1) (LineEndsWrapper_new s2) s1 s2) =
   (narrowed_input s1 s2,
    (TokenizingLineArrayCompareOutput_new w (LineEndsWrapper_new s1) (LineEndsWrapper_new s2) s1 s2)
      \<lparr>out_subrange_offset1 := common_prefix_len s1 s2,
       out_subrange_offset2 := common_prefix_len s1 s2\<rparr>)"
proof (cases "common_prefix_len s1 s2 > 0 \<or> common_suffix_len s1 s2 > 0")
  case True
  then show ?thesis
    unfolding NarrowDownInput_def Let_def line_input_simps
      common_prefix_len_def[symmetric] common_suffix_len_def[symmetric]
    by (simp add: narrowed_input_def LineArray_SetSubrange1_def LineArray_SetSubrange2_def
        Output_SetSubrange1_def Output_SetSubrange2_def)
next
  case False
  then have z: "common_prefix_len s1 s2 = 0" "common_suffix_len s1 s2 = 0"
    using prefix_facts(1)[of s1 s2] suffix_facts(1)[of s1 s2] by simp_all
  show ?thesis
    unfolding NarrowDownInput_def Let_def line_input_simps
      common_prefix_len_def[symmetric] common_suffix_len_def[symmetric]
    by (simp add: z narrowed_input_def line_input_def LineArrayCompareInput_new_def
        TokenizingLineArrayCompareOutput_new_def)
qed

lemma CompareStrings_fits_iff:
  "CompareStrings_fits s1 s2 \<longleftrightarrow>
     fits_int32 (GetLength1 (LineArray_Input (narrowed_input s1 s2)))
                (GetLength2 (LineArray_Input (narrowed_input s1 s2)))"
  by (simp add: CompareStrings_fits_def NarrowDownInput_eq Let_def)

lemma line_run_chunks:
  assumes "CompareStrings_fits s1 s2"
  shows "CalculateDifference ac (LineArray_Input (narrowed_input s1 s2)) cw =
      replay ac cw (diff_chunks (LineArray_Input (narrowed_input s1 s2)))"
  using assms unfolding CompareStrings_fits_iff by (intro CalculateDifference_diff_chunks) simp

lemma CompareStrings_into_replay:
  assumes "CompareStrings_fits s1 s2"
  shows "CompareStrings_into wc w s1 s2 =
     replay wc w (concat (map (chars_of_lines (LineEndsWrapper_new s1) (LineEndsWrapper_new s2) s1 s2)
       (line_chunks s1 s2)))"
  unfolding CompareStrings_into_def Let_def line_input_def[symmetric] NarrowDownInput_eq
  by (simp add: line_run_chunks[OF assms] replay_AddChunk line_chunks_def out_chunks_fun
      TokenizingLineArrayCompareOutput_new_def comp_def)

lemma CompareStrings_chunks_eq:
  assumes "CompareStrings_fits s1 s2"
  shows "CompareStrings_chunks s1 s2 =
     concat (map (chars_of_lines (LineEndsWrapper_new s1) (LineEndsWrapper_new s2) s1 s2)
       (line_chunks s1 s2))"
  by (simp add: CompareStrings_chunks_def CompareStrings_into_replay[OF assms] replay_record)

lemma CompareStrings_into_chunks:
  assumes "CompareStrings_fits s1 s2"
  shows "CompareStrings_into wc w s1 s2 = replay wc w (CompareStrings_chunks s1 s2)"
  by (simp add: CompareStrings_chunks_eq[OF assms] CompareStrings_into_replay[OF assms])

subsection \<open>The final chunk list covers the two texts\<close>

lemma narrowed_input_simps [simp]:
  "GetLength1 (LineArray_Input (narrowed_input s1 s2)) =
     LineEndsWrapper_length (LineEndsWrapper_new s1) - common_suffix_len s1 s2 - common_prefix_len s1 s2"
  "GetLength2 (LineArray_Input (narrowed_input s1 s2)) =
     LineEndsWrapper_length (LineEndsWrapper_new s2) - common_suffix_len s1 s2 - common_prefix_len s1 s2"
  "Equals (LineArray_Input (narrowed_input s1 s2)) =
     (\<lambda>i j. line_eq (LineEndsWrapper_new s1) (LineEndsWrapper_new s2) s1 s2
        (common_prefix_len s1 s2 + i) (common_prefix_len s1 s2 + j))"
  by (simp_all add: LineArray_Input_def narrowed_input_def line_input_def
      LineArrayCompareInput_new_def LineArray_Equals_line_eq fun_eq_iff add.commute)

lemma line_chunks_covers:
  "covers (line_eq (LineEndsWrapper_new s1) (LineEndsWrapper_new s2) s1 s2) 0 0
     (LineEndsWrapper_length (LineEndsWrapper_new s1))
     (LineEndsWrapper_length (LineEndsWrapper_new s2)) (line_chunks s1 s2)"
proof -
  let ?E = "line_eq (LineEndsWrapper_new s1) (LineEndsWrapper_new s2) s1 s2"
  let ?L1 = "LineEndsWrapper_length (LineEndsWrapper_new s1)"
  let ?L2 = "LineEndsWrapper_length (LineEndsWrapper_new s2)"
  let ?p = "common_prefix_len s1 s2" and ?s = "common_suffix_len s1 s2"
  let ?inp = "LineArray_Input (narrowed_input s1 s2)"
  note pf = prefix_facts[of s1 s2] and sf = suffix_facts[of s1 s2]
  have "covers (Equals ?inp) 0 0 (GetLength1 ?inp) (GetLength2 ?inp) (diff_chunks ?inp)"
    using sf(2,3) by (intro diff_chunks_covers) simp_all
  then have "covers (\<lambda>i j. ?E (?p + i) (?p + j)) 0 0 (?L1 - ?s - ?p) (?L2 - ?s - ?p) (diff_chunks ?inp)"
    by simp
  from covers_shift[OF this]
  have mid: "covers ?E ?p ?p (?L1 - ?s) (?L2 - ?s) (line_chunks s1 s2)"
    by (simp add: line_chunks_def algebra_simps)
  have "?L1 - (?L1 - ?s) = ?s" "?L2 - (?L2 - ?s) = ?s" by simp_all
  then have "covers ?E (?L1 - ?s) (?L2 - ?s) ?L1 ?L2 []"
    using sf(1,4) by simp
  from covers_append[OF mid this]
  have "covers ?E (0 + ?p) (0 + ?p) ?L1 ?L2 (line_chunks s1 s2)" by simp
  from covers_prepend_gap[OF pf(4,1) this] show ?thesis .
qed

lemma CompareStrings_chunks_covers:
  assumes fits: "CompareStrings_fits s1 s2"
  shows "covers (same_char s1 s2) 0 0 (int (length s1)) (int (length s2)) (CompareStrings_chunks s1 s2)"
proof -
  let ?w1 = "LineEndsWrapper_new s1" and ?w2 = "LineEndsWrapper_new s2"
  have v: "valid_wrapper ?w1" "0 \<le> string_len ?w1" "valid_wrapper ?w2" "0 \<le> string_len ?w2"
    by (simp_all add: valid_wrapper_new)
  have "covers (same_char s1 s2) (GetLineStart ?w1 0) (GetLineStart ?w2 0)
      (GetLineStart ?w1 (LineEndsWrapper_length ?w1)) (GetLineStart ?w2 (LineEndsWrapper_length ?w2))
      (concat (map (chars_of_lines ?w1 ?w2 s1 s2) (line_chunks s1 s2)))"
    by (rule lines_covers_chars[OF v line_chunks_covers]) simp_all
  then show ?thesis
    by (simp add: CompareStrings_chunks_eq[OF fits] GetLineStart_last)
qed

subsection \<open>What a covering of two texts gives\<close>

lemma diag_same_char_take:
  assumes "diag (same_char A B) (int p1) (int p2) (int n)"
    and "int p1 + int n \<le> int (length A)" "int p2 + int n \<le> int (length B)"
  shows "take n (drop p1 A) = take n (drop p2 B)"
proof (rule nth_equalityI)
  show "length (take n (drop p1 A)) = length (take n (drop p2 B))"
    using assms(2,3) by simp
next
  fix i assume "i < length (take n (drop p1 A))"
  then have i: "i < n" by simp
  then have "int i \<in> {0..<int n}" by simp
  then have "same_char A B (int p1 + int i) (int p2 + int i)"
    using assms(1) unfolding diag_def by blast
  then have "Get A (int (p1 + i)) = Get B (int (p2 + i))"
    by (simp add: same_char_def)
  moreover have "p1 + i < length A" "p2 + i < length B" using i assms(2,3) by simp_all
  ultimately have "A ! (p1 + i) = B ! (p2 + i)" using Get_in by (metis option.inject)
  then show "take n (drop p1 A) ! i = take n (drop p2 B) ! i"
    using i assms(2,3) by simp
qed

lemma apply_chunks_from_covers:
  "covers (same_char A B) p1 p2 (int (length A)) (int (length B)) cs \<Longrightarrow> 0 \<le> p1 \<Longrightarrow> 0 \<le> p2 \<Longrightarrow>
   apply_chunks_from p1 cs A B = drop (nat p2) B"
proof (induction cs arbitrary: p1 p2)
  case Nil
  have g: "p1 \<le> int (length A)" "int (length B) - p2 = int (length A) - p1"
    "diag (same_char A B) p1 p2 (int (length A) - p1)"
    using Nil(1) unfolding covers.simps by blast+
  let ?n = "nat (int (length A) - p1)"
  have n: "int ?n = int (length A) - p1" "int (nat p1) = p1" "int (nat p2) = p2"
    using g(1) Nil(2,3) by simp_all
  have "diag (same_char A B) (int (nat p1)) (int (nat p2)) (int ?n)"
    unfolding n by (rule g(3))
  then have "take ?n (drop (nat p1) A) = take ?n (drop (nat p2) B)"
    by (rule diag_same_char_take) (use g n in linarith)+
  moreover have "?n = length A - nat p1" "?n = length B - nat p2"
    using g Nil(2,3) by linarith+
  ultimately show ?case by simp
next
  case (Cons c cs)
  obtain a b l1 l2 where c: "c = (a, b, l1, l2)" by (cases c)
  have g: "p1 \<le> a" "b - p2 = a - p1" "diag (same_char A B) p1 p2 (a - p1)"
    "0 \<le> l1" "0 \<le> l2" "covers (same_char A B) (a + l1) (b + l2) (int (length A)) (int (length B)) cs"
    using Cons.prems(1) unfolding c covers.simps by blast+
  from covers_bounds[OF g(6)] have bd: "a + l1 \<le> int (length A)" "b + l2 \<le> int (length B)"
    by simp_all
  let ?n = "nat (a - p1)"
  have n: "int ?n = a - p1" "int (nat p1) = p1" "int (nat p2) = p2"
    using g(1) Cons.prems(2,3) by simp_all
  have "diag (same_char A B) (int (nat p1)) (int (nat p2)) (int ?n)"
    unfolding n by (rule g(3))
  then have t: "take ?n (drop (nat p1) A) = take ?n (drop (nat p2) B)"
    by (rule diag_same_char_take) (use g bd n in linarith)+
  have b0: "0 \<le> b" "0 \<le> a" using g(1,2) Cons.prems(2,3) by linarith+
  have r: "apply_chunks_from (a + l1) cs A B = drop (nat (b + l2)) B"
    using Cons.IH[OF g(6)] b0 g(4,5) by simp
  have nb: "nat b = nat p2 + ?n" "nat (b + l2) = nat b + nat l2"
    using g(1,2,5) b0 Cons.prems(2,3) by linarith+
  have "drop (nat p2) B = take ?n (drop (nat p2) B) @ drop ?n (drop (nat p2) B)"
    by (rule append_take_drop_id[symmetric])
  also have "drop ?n (drop (nat p2) B) = drop (nat b) B"
    unfolding nb by (simp add: add.commute)
  also have "drop (nat b) B = take (nat l2) (drop (nat b) B) @ drop (nat l2) (drop (nat b) B)"
    by (rule append_take_drop_id[symmetric])
  also have "drop (nat l2) (drop (nat b) B) = drop (nat (b + l2)) B"
    unfolding nb by (simp add: add.commute)
  finally show ?case unfolding c apply_chunks_from.simps r t by (rule sym)
qed

lemma covers_ordered:
  "covers E p1 p2 e1 e2 cs \<Longrightarrow> Suc i < length cs \<Longrightarrow>
   (case cs ! i of (a, b, l1, l2) \<Rightarrow>
      case cs ! Suc i of (a', b', l1', l2') \<Rightarrow> a + l1 \<le> a' \<and> b + l2 \<le> b')"
proof (induction cs arbitrary: p1 p2 i)
  case Nil
  then show ?case by simp
next
  case (Cons c cs)
  obtain a b l1 l2 where c: "c = (a, b, l1, l2)" by (cases c)
  have g: "covers E (a + l1) (b + l2) e1 e2 cs"
    using Cons.prems(1) unfolding c covers.simps by blast
  show ?case
  proof (cases i)
    case 0
    then obtain c' cs' where cs: "cs = c' # cs'" using Cons.prems(2) by (cases cs) auto
    obtain a' b' l1' l2' where c': "c' = (a', b', l1', l2')" by (cases c')
    have "a + l1 \<le> a'" "b' - (b + l2) = a' - (a + l1)"
      using g unfolding cs c' covers.simps by blast+
    then show ?thesis using 0 c cs c' by simp
  next
    case (Suc k)
    then show ?thesis using Cons.IH[OF g, of k] Cons.prems(2) by simp
  qed
qed

lemma covers_offsets:
  "covers E p1 p2 e1 e2 cs \<Longrightarrow> i < length cs \<Longrightarrow>
   (case cs ! i of (a, b, l1, l2) \<Rightarrow>
      b - a = (p2 - p1) + (\<Sum>(a', b', l1', l2')\<leftarrow>take i cs. l2' - l1'))"
proof (induction cs arbitrary: p1 p2 i)
  case Nil
  then show ?case by simp
next
  case (Cons c cs)
  obtain a b l1 l2 where c: "c = (a, b, l1, l2)" by (cases c)
  have g: "b - p2 = a - p1" "covers E (a + l1) (b + l2) e1 e2 cs"
    using Cons.prems(1) unfolding c covers.simps by blast+
  show ?case
  proof (cases i)
    case 0
    then show ?thesis using g(1) c by simp
  next
    case (Suc k)
    have "case cs ! k of (a', b', l1', l2') \<Rightarrow>
        b' - a' = (b + l2 - (a + l1)) + (\<Sum>(a', b', l1', l2')\<leftarrow>take k cs. l2' - l1')"
      using Cons.IH[OF g(2), of k] Cons.prems(2) Suc by simp
    then show ?thesis using Suc c g(1) by (auto split: prod.splits)
  qed
qed

subsection \<open>The result array determines the chunk list\<close>

lemma WriteChunk_triples:
  assumes "current_size w = 3 * int n"
  shows "current_size (WriteChunk a b l1 l2 w) = 3 * int (Suc n)"
    and "triples (WriteChunk a b l1 l2 w) = triples w @ [(a, a + l1, b + l2)]"
proof -
  show "current_size (WriteChunk a b l1 l2 w) = 3 * int (Suc n)"
    using assms by (simp add: WriteChunk_def Let_def)
  have n: "nat (current_size w) = 3 * n" "nat (current_size w + 1) = 3 * n + 1"
    "nat (current_size w + 2) = 3 * n + 2" "nat (current_size w + 3) = 3 * Suc n"
    using assms by simp_all
  have arr: "array (WriteChunk a b l1 l2 w) m =
      (if m = 3 * n + 2 then Some (b + l2) else if m = 3 * n + 1 then Some (a + l1)
       else if m = 3 * n then Some a else array w m)" for m
    by (simp add: WriteChunk_def Let_def SetElementSloppy_def n)
  have cs: "nat (current_size (WriteChunk a b l1 l2 w)) div 3 = Suc n" "nat (current_size w) div 3 = n"
    using assms by (simp_all add: WriteChunk_def Let_def n)
  show "triples (WriteChunk a b l1 l2 w) = triples w @ [(a, a + l1, b + l2)]"
    unfolding triples_def cs by (simp add: arr)
qed

lemma replay_WriteChunk:
  "current_size w = 3 * int n \<Longrightarrow>
   triples (replay WriteChunk w cs) = triples w @ map triple_of cs"
proof (induction cs arbitrary: w n)
  case Nil
  show ?case by simp
next
  case (Cons c cs)
  obtain a b l1 l2 where c: "c = (a, b, l1, l2)" by (cases c)
  from WriteChunk_triples[OF Cons.prems, of a b l1 l2] Cons.IH[of "WriteChunk a b l1 l2 w" "Suc n"]
  show ?case unfolding c replay_Cons by (simp add: triple_of_def)
qed

lemma triples_new: "triples CompareOutputArrayWriter_new = []"
  by (simp add: triples_def CompareOutputArrayWriter_new_def)

lemma chunks_of_triples_covers:
  "covers E p1 p2 e1 e2 cs \<Longrightarrow> chunks_of_triples (p2 - p1) (map triple_of cs) = cs"
proof (induction cs arbitrary: p1 p2)
  case Nil
  show ?case by simp
next
  case (Cons c cs)
  obtain a b l1 l2 where c: "c = (a, b, l1, l2)" by (cases c)
  have g: "b - p2 = a - p1" "covers E (a + l1) (b + l2) e1 e2 cs"
    using Cons.prems(1) unfolding c covers.simps by blast+
  have e: "a + (p2 - p1) = b" using g(1) by linarith
  have "chunks_of_triples (p2 - p1) (map triple_of (c # cs)) =
      (a, a + (p2 - p1), a + l1 - a, b + l2 - (a + (p2 - p1))) #
      chunks_of_triples ((b + l2) - (a + l1)) (map triple_of cs)"
    by (simp add: c triple_of_def)
  also have "\<dots> = (a, b, l1, l2) # cs"
    unfolding e using Cons.IH[OF g(2)] by simp
  finally show ?case by (simp add: c)
qed

lemma decode_CompareStrings:
  assumes fits: "CompareStrings_fits s1 s2"
  shows "decode (CompareStrings s1 s2) = CompareStrings_chunks s1 s2"
proof -
  have "current_size CompareOutputArrayWriter_new = 3 * int 0"
    by (simp add: CompareOutputArrayWriter_new_def)
  from replay_WriteChunk[OF this]
  have "triples (CompareStrings s1 s2) = map triple_of (CompareStrings_chunks s1 s2)"
    by (simp add: CompareStrings_def CompareStrings_into_chunks[OF fits, of WriteChunk] triples_new)
  then show ?thesis
    using chunks_of_triples_covers[OF CompareStrings_chunks_covers[OF fits]]
    by (simp add: decode_def)
qed

lemma covers_gaps:
  "covers E p1 p2 e1 e2 cs \<Longrightarrow> Suc i < length cs \<Longrightarrow>
   (case cs ! i of (a, b, l1, l2) \<Rightarrow>
      case cs ! Suc i of (a', b', l1', l2') \<Rightarrow> b' - (b + l2) = a' - (a + l1))"
proof (induction cs arbitrary: p1 p2 i)
  case Nil
  then show ?case by simp
next
  case (Cons c cs)
  obtain a b l1 l2 where c: "c = (a, b, l1, l2)" by (cases c)
  have g: "covers E (a + l1) (b + l2) e1 e2 cs"
    using Cons.prems(1) unfolding c covers.simps by blast
  show ?case
  proof (cases i)
    case 0
    then obtain c' cs' where cs: "cs = c' # cs'" using Cons.prems(2) by (cases cs) auto
    obtain a' b' l1' l2' where c': "c' = (a', b', l1', l2')" by (cases c')
    have "b' - (b + l2) = a' - (a + l1)"
      using g unfolding cs c' covers.simps by blast
    then show ?thesis using 0 c cs c' by simp
  next
    case (Suc k)
    then show ?thesis using Cons.IH[OF g, of k] Cons.prems(2) by simp
  qed
qed

subsection \<open>Trimming a common prefix does not change the chunks\<close>

lemma cost_narrow:
  "len1 dn = len1 d - p \<Longrightarrow> len2 dn = len2 d - p \<Longrightarrow>
   Equals (input dn) = (\<lambda>i j. Equals (input d) (p + i) (p + j)) \<Longrightarrow>
   cost dn i j = cost d (p + i) (p + j)"
proof (induction dn i j rule: cost.induct)
  case (1 dn i j)
  note a = "1.prems"
  have E: "Equals (input dn) i j = Equals (input d) (p + i) (p + j)" using a(3) by simp
  have s: "p + i + 1 = p + (i + 1)" "p + j + 1 = p + (j + 1)" by simp_all
  show ?case
  proof (cases "i < len1 dn \<and> j < len2 dn")
    case False
    then show ?thesis using a(1,2) by (subst cost.simps, subst (2) cost.simps) auto
  next
    case True
    then have T: "p + i < len1 d" "p + j < len2 d" using a(1,2) by simp_all
    show ?thesis
    proof (cases "Equals (input dn) i j")
      case e: True
      then have "cost dn (i + 1) (j + 1) = cost d (p + (i + 1)) (p + (j + 1))"
        using "1.IH"(1) True a by simp
      then show ?thesis
        using True T e E by (simp add: cost_eq_step s)
    next
      case e: False
      then have "cost dn (i + 1) j = cost d (p + (i + 1)) (p + j)"
        "cost dn i (j + 1) = cost d (p + i) (p + (j + 1))"
        using "1.IH"(2,3) True a by simp_all
      then show ?thesis
        using True T e E by (simp add: cost_ne_step s)
    qed
  qed
qed

lemma dirn_narrow:
  assumes "len1 dn = len1 d - p" "len2 dn = len2 d - p"
    and "Equals (input dn) = (\<lambda>i j. Equals (input d) (p + i) (p + j))"
  shows "dirn dn i j = dirn d (p + i) (p + j)"
proof -
  have s: "p + i + 1 = p + (i + 1)" "p + j + 1 = p + (j + 1)" by simp_all
  show ?thesis
    unfolding dirn_def s cost_narrow[OF assms, symmetric] by (simp add: assms(3))
qed

lemma path_narrow:
  "len1 dn = len1 d - p \<Longrightarrow> len2 dn = len2 d - p \<Longrightarrow>
   Equals (input dn) = (\<lambda>i j. Equals (input d) (p + i) (p + j)) \<Longrightarrow>
   path dn i j = path d (p + i) (p + j)"
proof (induction dn i j rule: path.induct)
  case (1 dn i j)
  note a = "1.prems"
  have dr: "dirn dn i j = dirn d (p + i) (p + j)" by (rule dirn_narrow[OF a])
  have s: "p + i + 1 = p + (i + 1)" "p + j + 1 = p + (j + 1)" by simp_all
  show ?case
  proof (cases "i < len1 dn \<and> j < len2 dn")
    case False
    then show ?thesis using a(1,2) by (subst path.simps, subst (2) path.simps) auto
  next
    case True
    then have T: "p + i < len1 d" "p + j < len2 d" using a(1,2) by simp_all
    show ?thesis
    proof (cases "dirn dn i j")
      case EQ
      then have "path dn (i + 1) (j + 1) = path d (p + (i + 1)) (p + (j + 1))"
        using "1.IH"(1) True a by simp
      then show ?thesis
        using True T EQ dr by (subst path.simps, subst (2) path.simps) (simp add: s)
    next
      case SKIP1
      then have "path dn (i + 1) j = path d (p + (i + 1)) (p + j)"
        using "1.IH"(2) True a by simp
      then show ?thesis
        using True T SKIP1 dr by (subst path.simps, subst (2) path.simps) (simp add: s)
    next
      case SKIP2
      then have "path dn i (j + 1) = path d (p + i) (p + (j + 1))"
        using "1.IH"(3) True a by simp
      then show ?thesis
        using True T SKIP2 dr by (subst path.simps, subst (2) path.simps) (simp add: s)
    next
      case SKIP_ANY
      then have "path dn i (j + 1) = path d (p + i) (p + (j + 1))"
        using "1.IH"(4) True a by simp
      then show ?thesis
        using True T SKIP_ANY dr by (subst path.simps, subst (2) path.simps) (simp add: s)
    qed
  qed
qed

lemma path_diag:
  "diag (Equals (input d)) k k (int n) \<Longrightarrow> k + int n \<le> len1 d \<Longrightarrow> k + int n \<le> len2 d \<Longrightarrow>
   path d k k = replicate n StepEq @ path d (k + int n) (k + int n)"
proof (induction n arbitrary: k)
  case 0
  show ?case by simp
next
  case (Suc n)
  have e: "Equals (input d) k k"
    using Suc.prems(1) by (auto simp: diag_def dest: bspec[where x = 0])
  have "diag (Equals (input d)) (k + 1) (k + 1) (int n)"
    unfolding diag_def
  proof
    fix i assume "i \<in> {0..<int n}"
    then have "i + 1 \<in> {0..<int (Suc n)}" by auto
    then have "Equals (input d) (k + (i + 1)) (k + (i + 1))"
      using Suc.prems(1) unfolding diag_def by blast
    then show "Equals (input d) (k + 1 + i) (k + 1 + i)" by (simp add: algebra_simps)
  qed
  then have "path d (k + 1) (k + 1) = replicate n StepEq @ path d (k + 1 + int n) (k + 1 + int n)"
    using Suc.IH[of "k + 1"] Suc.prems(2,3) by simp
  moreover have "path d k k = StepEq # path d (k + 1) (k + 1)"
    using e Suc.prems(2,3) dirn_EQ_iff[of d k k] by (subst path.simps) simp
  ultimately show ?case by (simp add: algebra_simps)
qed

lemma merged_replicate_eq:
  "merged None p1 p2 (replicate n StepEq @ ss) = merged None (p1 + int n) (p2 + int n) ss"
  by (induction n arbitrary: p1 p2) (simp_all add: algebra_simps)

lemma merged_shift:
  "merged (map_option (\<lambda>(x, y). (x + o1, y + o2)) opn) (p1 + o1) (p2 + o2) ss =
     map (shift o1 o2) (merged opn p1 p2 ss)"
proof (induction ss arbitrary: opn p1 p2)
  case Nil
  show ?case by (cases opn) (auto simp: algebra_simps)
next
  case (Cons s ss)
  have st: "started (map_option (\<lambda>(x, y). (x + o1, y + o2)) opn) (p1 + o1) (p2 + o2) =
      map_option (\<lambda>(x, y). (x + o1, y + o2)) (started opn p1 p2)"
    by (cases opn) auto
  have fl: "flushed (map_option (\<lambda>(x, y). (x + o1, y + o2)) opn) (p1 + o1) (p2 + o2) =
      map (shift o1 o2) (flushed opn p1 p2)"
    by (cases opn) (auto simp: algebra_simps)
  show ?case
  proof (cases s)
    case StepEq
    have "merged None (p1 + o1 + 1) (p2 + o2 + 1) ss = map (shift o1 o2) (merged None (p1 + 1) (p2 + 1) ss)"
      using Cons.IH[of None "p1 + 1" "p2 + 1"] by (simp add: algebra_simps)
    then show ?thesis unfolding StepEq merged.simps fl by simp
  next
    case (StepSkip1 n)
    have e: "p1 + o1 + n = p1 + n + o1" by simp
    show ?thesis
      unfolding StepSkip1 merged.simps st e by (rule Cons.IH)
  next
    case (StepSkip2 n)
    have e: "p2 + o2 + n = p2 + n + o2" by simp
    show ?thesis
      unfolding StepSkip2 merged.simps st e by (rule Cons.IH)
  qed
qed

lemma diff_chunks_prefix_narrow:
  assumes "GetLength1 inpn = GetLength1 inp - p" "GetLength2 inpn = GetLength2 inp - p"
    and "Equals inpn = (\<lambda>i j. Equals inp (p + i) (p + j))"
    and "0 \<le> p" "p \<le> GetLength1 inp" "p \<le> GetLength2 inp"
    and "diag (Equals inp) 0 0 p"
  shows "diff_chunks inp = map (shift p p) (diff_chunks inpn)"
proof -
  let ?d = "Differencer_new inp" and ?dn = "Differencer_new inpn"
  have n: "int (nat p) = p" using assms(4) by simp
  have "diag (Equals (input ?d)) 0 0 (int (nat p))" unfolding n using assms(7) by simp
  then have "path ?d 0 0 = replicate (nat p) StepEq @ path ?d (0 + int (nat p)) (0 + int (nat p))"
    by (rule path_diag) (use assms n in simp_all)
  moreover have "path ?dn 0 0 = path ?d (p + 0) (p + 0)"
    by (rule path_narrow) (use assms in simp_all)
  ultimately have "path ?d 0 0 = replicate (nat p) StepEq @ path ?dn 0 0"
    unfolding n by simp
  then have "diff_chunks inp = merged None (0 + p) (0 + p) (path ?dn 0 0)"
    unfolding diff_chunks_merged using merged_replicate_eq[of 0 0 "nat p"] n by simp
  also have "\<dots> = map (shift p p) (merged None 0 0 (path ?dn 0 0))"
    using merged_shift[of p p None 0 0] by simp
  finally show ?thesis by (simp add: diff_chunks_merged)
qed

lemma shift_0: "shift 0 0 c = c"
  by (cases c) simp

lemma CompareStrings_without_narrowing_replay:
  assumes "fits_int32 (LineEndsWrapper_length (LineEndsWrapper_new s1))
                      (LineEndsWrapper_length (LineEndsWrapper_new s2))"
  shows "CompareStrings_without_narrowing wc w s1 s2 =
     replay wc w (concat (map (chars_of_lines (LineEndsWrapper_new s1) (LineEndsWrapper_new s2) s1 s2)
       (diff_chunks (LineArray_Input (line_input s1 s2)))))"
proof -
  have "GetLength1 (LineArray_Input (line_input s1 s2)) \<le> 0 \<or>
        GetLength2 (LineArray_Input (line_input s1 s2)) \<le> 0 \<or>
        fits_int32 (GetLength1 (LineArray_Input (line_input s1 s2)))
                   (GetLength2 (LineArray_Input (line_input s1 s2)))"
    using assms by simp
  note r = CalculateDifference_diff_chunks[OF this]
  show ?thesis
    unfolding CompareStrings_without_narrowing_def Let_def line_input_def[symmetric]
    by (simp add: r replay_AddChunk out_chunks_fun shift_0
        TokenizingLineArrayCompareOutput_new_def)
qed

subsection \<open>Every run of the merger inside \<open>CompareStrings\<close> has lengths that are not negative\<close>

lemma covers_chunk_bounds:
  "covers E p1 p2 e1 e2 cs \<Longrightarrow> (a, b, l1, l2) \<in> set cs \<Longrightarrow>
   p1 \<le> a \<and> p2 \<le> b \<and> 0 \<le> l1 \<and> 0 \<le> l2 \<and> a + l1 \<le> e1 \<and> b + l2 \<le> e2"
proof (induction cs arbitrary: p1 p2)
  case Nil
  then show ?case by simp
next
  case (Cons c cs)
  obtain a' b' l1' l2' where c: "c = (a', b', l1', l2')" by (cases c)
  have g: "p1 \<le> a'" "b' - p2 = a' - p1" "0 \<le> l1'" "0 \<le> l2'"
    "covers E (a' + l1') (b' + l2') e1 e2 cs"
    using Cons.prems(1) unfolding c covers.simps by blast+
  from covers_bounds[OF g(5)] have bd: "a' + l1' \<le> e1" "b' + l2' \<le> e2" by simp_all
  show ?case
  proof (cases "(a, b, l1, l2) = c")
    case True
    then show ?thesis using g bd c by auto
  next
    case False
    then have "(a, b, l1, l2) \<in> set cs" using Cons.prems(2) by simp
    from Cons.IH[OF g(5) this] show ?thesis using g by linarith
  qed
qed

lemma narrowed_lengths_nonneg:
  "0 \<le> GetLength1 (LineArray_Input (narrowed_input s1 s2))"
  "0 \<le> GetLength2 (LineArray_Input (narrowed_input s1 s2))"
  using suffix_facts(2,3)[of s1 s2] by simp_all

lemma nested_lengths_nonneg:
  assumes "(a, b, l1, l2) \<in> set (diff_chunks (LineArray_Input (narrowed_input s1 s2)))"
  shows "0 \<le> GetLineStart (LineEndsWrapper_new s1) (a + common_prefix_len s1 s2 + l1) -
               GetLineStart (LineEndsWrapper_new s1) (a + common_prefix_len s1 s2)"
    and "0 \<le> GetLineStart (LineEndsWrapper_new s2) (b + common_prefix_len s1 s2 + l2) -
               GetLineStart (LineEndsWrapper_new s2) (b + common_prefix_len s1 s2)"
proof -
  let ?p = "common_prefix_len s1 s2"
  let ?w1 = "LineEndsWrapper_new s1" and ?w2 = "LineEndsWrapper_new s2"
  have "shift ?p ?p (a, b, l1, l2) \<in> set (line_chunks s1 s2)"
    unfolding line_chunks_def set_map using assms by (rule imageI)
  then have "(a + ?p, b + ?p, l1, l2) \<in> set (line_chunks s1 s2)" by simp
  from covers_chunk_bounds[OF line_chunks_covers this]
  have bd: "0 \<le> a + ?p" "0 \<le> b + ?p" "0 \<le> l1" "0 \<le> l2"
    "a + ?p + l1 \<le> LineEndsWrapper_length ?w1" "b + ?p + l2 \<le> LineEndsWrapper_length ?w2"
    by simp_all
  have v: "valid_wrapper ?w1" "0 \<le> string_len ?w1" "valid_wrapper ?w2" "0 \<le> string_len ?w2"
    by (simp_all add: valid_wrapper_new)
  show "0 \<le> GetLineStart ?w1 (a + ?p + l1) - GetLineStart ?w1 (a + ?p)"
    using GetLineStart_mono[OF v(1,2) bd(1) _ bd(5)] bd(3) by simp
  show "0 \<le> GetLineStart ?w2 (b + ?p + l2) - GetLineStart ?w2 (b + ?p)"
    using GetLineStart_mono[OF v(3,4) bd(2) _ bd(6)] bd(4) by simp
qed

subsection \<open>Trimming a common suffix: the cost stays, the path may change\<close>

lemma cost_lower_diff:
  "p1 \<le> len1 d \<Longrightarrow> p2 \<le> len2 d \<Longrightarrow>
   (len1 d - p1) - (len2 d - p2) \<le> cost d p1 p2 \<and>
   (len2 d - p2) - (len1 d - p1) \<le> cost d p1 p2"
proof (induction d p1 p2 rule: cost.induct)
  case (1 d p1 p2)
  show ?case
  proof (cases "p1 < len1 d \<and> p2 < len2 d")
    case False
    then show ?thesis using "1.prems" by (subst cost.simps, subst (2) cost.simps) auto
  next
    case True
    show ?thesis
    proof (cases "Equals (input d) p1 p2")
      case e: True
      then show ?thesis using True "1.IH"(1) by (simp add: cost_eq_step)
    next
      case e: False
      then show ?thesis using True "1.IH"(2,3) by (simp add: cost_ne_step min_def)
    qed
  qed
qed

lemma path_end [simp]: "path d (len1 d) (len2 d) = []"
  by (subst path.simps) simp

lemma path_diag2:
  "diag (Equals (input d)) p1 p2 (int n) \<Longrightarrow> p1 + int n \<le> len1 d \<Longrightarrow> p2 + int n \<le> len2 d \<Longrightarrow>
   path d p1 p2 = replicate n StepEq @ path d (p1 + int n) (p2 + int n)"
proof (induction n arbitrary: p1 p2)
  case 0
  show ?case by simp
next
  case (Suc n)
  have e: "Equals (input d) p1 p2"
    using Suc.prems(1) by (auto simp: diag_def dest: bspec[where x = 0])
  have "diag (Equals (input d)) (p1 + 1) (p2 + 1) (int n)"
    unfolding diag_def
  proof
    fix i assume "i \<in> {0..<int n}"
    then have "i + 1 \<in> {0..<int (Suc n)}" by auto
    then have "Equals (input d) (p1 + (i + 1)) (p2 + (i + 1))"
      using Suc.prems(1) unfolding diag_def by blast
    then show "Equals (input d) (p1 + 1 + i) (p2 + 1 + i)" by (simp add: algebra_simps)
  qed
  then have "path d (p1 + 1) (p2 + 1) = replicate n StepEq @ path d (p1 + 1 + int n) (p2 + 1 + int n)"
    using Suc.IH[of "p1 + 1" "p2 + 1"] Suc.prems(2,3) by simp
  moreover have "path d p1 p2 = StepEq # path d (p1 + 1) (p2 + 1)"
    using e Suc.prems(2,3) dirn_EQ_iff[of d p1 p2] by (subst path.simps) simp
  ultimately show ?case by (simp add: algebra_simps)
qed

lemma merged_replicate_flush:
  "0 < n \<Longrightarrow> merged opn p1 p2 (replicate n StepEq) = flushed opn p1 p2"
proof -
  assume "0 < n"
  then obtain m where n: "n = Suc m" by (cases n) auto
  have "merged None (p1 + 1) (p2 + 1) (replicate m StepEq @ []) = []"
    unfolding merged_replicate_eq by simp
  then show ?thesis by (simp add: n)
qed

lemma started_started [simp]: "started (started opn a b) c d = started opn a b"
  by (cases opn) auto

lemma suffix_corner:
  assumes "suffix_of dn d k"
  shows "cost d (len1 dn) (len2 dn) = 0"
    and "path d (len1 dn) (len2 dn) = replicate (nat k) StepEq"
proof -
  have k: "int (nat k) = k" using assms by (simp add: suffix_of_def)
  have dg: "diag (Equals (input d)) (len1 dn) (len2 dn) (int (nat k))"
    unfolding k using assms by (simp add: suffix_of_def)
  have e: "len1 dn + int (nat k) = len1 d" "len2 dn + int (nat k) = len2 d"
    unfolding k using assms by (simp_all add: suffix_of_def)
  have le: "len1 dn + int (nat k) \<le> len1 d" "len2 dn + int (nat k) \<le> len2 d"
    unfolding e by simp_all
  have "cost d (len1 dn) (len2 dn) = cost d (len1 dn + int (nat k)) (len2 dn + int (nat k))"
    by (rule cost_diag[OF dg le])
  then show "cost d (len1 dn) (len2 dn) = 0" unfolding e by (simp add: cost_end1)
  have "path d (len1 dn) (len2 dn) =
      replicate (nat k) StepEq @ path d (len1 dn + int (nat k)) (len2 dn + int (nat k))"
    by (rule path_diag2[OF dg le])
  then show "path d (len1 dn) (len2 dn) = replicate (nat k) StepEq" unfolding e by simp
qed

lemma suffix_edge1:
  assumes s: "suffix_of dn d k" and i: "i \<le> len1 dn"
  shows "cost d i (len2 dn) = len1 dn - i"
proof -
  have l: "len1 d = len1 dn + k" "len2 d = len2 dn + k" "0 \<le> k"
    using s by (simp_all add: suffix_of_def)
  have n: "int (nat (len1 dn - i)) = len1 dn - i" using i by simp
  have "cost d i (len2 dn) \<le> cost d (i + int (nat (len1 dn - i))) (len2 dn) + int (nat (len1 dn - i))"
    by (rule cost_skip1) (use l n in simp_all)
  then have "cost d i (len2 dn) \<le> len1 dn - i"
    unfolding n using suffix_corner(1)[OF s] by simp
  moreover have "(len1 d - i) - (len2 d - len2 dn) \<le> cost d i (len2 dn)"
    using cost_lower_diff[of i d "len2 dn"] l i by simp
  ultimately show ?thesis using l by simp
qed

lemma suffix_edge2:
  assumes s: "suffix_of dn d k" and j: "j \<le> len2 dn"
  shows "cost d (len1 dn) j = len2 dn - j"
proof -
  have l: "len1 d = len1 dn + k" "len2 d = len2 dn + k" "0 \<le> k"
    using s by (simp_all add: suffix_of_def)
  have n: "int (nat (len2 dn - j)) = len2 dn - j" using j by simp
  have "cost d (len1 dn) j \<le> cost d (len1 dn) (j + int (nat (len2 dn - j))) + int (nat (len2 dn - j))"
    by (rule cost_skip2) (use l n in simp_all)
  then have "cost d (len1 dn) j \<le> len2 dn - j"
    unfolding n using suffix_corner(1)[OF s] by simp
  moreover have "(len2 d - j) - (len1 d - len1 dn) \<le> cost d (len1 dn) j"
    using cost_lower_diff[of "len1 dn" d j] l j by simp
  ultimately show ?thesis using l by simp
qed

lemma cost_suffix:
  "suffix_of dn d k \<Longrightarrow> i \<le> len1 dn \<Longrightarrow> j \<le> len2 dn \<Longrightarrow> cost dn i j = cost d i j"
proof (induction dn i j rule: cost.induct)
  case (1 dn i j)
  note s = "1.prems"(1)
  have l: "len1 d = len1 dn + k" "len2 d = len2 dn + k" "0 \<le> k"
    and E: "Equals (input dn) = Equals (input d)"
    using s by (simp_all add: suffix_of_def)
  show ?case
  proof (cases "i < len1 dn \<and> j < len2 dn")
    case True
    then have T: "i < len1 d" "j < len2 d" using l by simp_all
    show ?thesis
    proof (cases "Equals (input dn) i j")
      case e: True
      then have "cost dn (i + 1) (j + 1) = cost d (i + 1) (j + 1)"
        using "1.IH"(1) True s by simp
      then show ?thesis using True T e E by (simp add: cost_eq_step)
    next
      case e: False
      then have "cost dn (i + 1) j = cost d (i + 1) j" "cost dn i (j + 1) = cost d i (j + 1)"
        using "1.IH"(2,3) True s by simp_all
      then show ?thesis using True T e E by (simp add: cost_ne_step)
    qed
  next
    case False
    show ?thesis
    proof (cases "i < len1 dn")
      case True
      then have j: "j = len2 dn" using False "1.prems" by simp
      have "cost dn i j = len1 dn - i" using j True by (simp add: cost_end2)
      then show ?thesis using suffix_edge1[OF s, of i] True j by simp
    next
      case False
      then have i: "i = len1 dn" using "1.prems" by simp
      have "cost dn i j = len2 dn - j" using i by (simp add: cost_end1)
      then show ?thesis using suffix_edge2[OF s, of j] "1.prems" i by simp
    qed
  qed
qed

lemma dirn_suffix:
  assumes "suffix_of dn d k" "i < len1 dn" "j < len2 dn"
  shows "dirn dn i j = dirn d i j"
proof -
  have E: "Equals (input dn) = Equals (input d)" using assms by (simp add: suffix_of_def)
  have "cost dn (i + 1) j = cost d (i + 1) j" "cost dn i (j + 1) = cost d i (j + 1)"
    using assms by (simp_all add: cost_suffix)
  then show ?thesis by (simp add: dirn_def E)
qed

lemma merged_edge1:
  assumes s: "suffix_of dn d k" and k: "0 < k"
  shows "\<forall>i'. i \<le> i' \<and> i' < len1 dn \<longrightarrow> \<not> Equals (input d) i' (len2 dn) \<Longrightarrow> i \<le> len1 dn \<Longrightarrow>
         merged opn q1 q2 (path d i (len2 dn)) =
           flushed (if i < len1 dn then started opn q1 q2 else opn) (q1 + (len1 dn - i)) q2"
proof (induction "nat (len1 dn - i)" arbitrary: i opn q1)
  case 0
  then have i: "i = len1 dn" by simp
  show ?case
    unfolding i suffix_corner(2)[OF s] using k by (simp add: merged_replicate_flush)
next
  case (Suc m)
  then have i: "i < len1 dn" by simp
  have l: "len1 d = len1 dn + k" "len2 d = len2 dn + k"
    using s by (simp_all add: suffix_of_def)
  have ne: "\<not> Equals (input d) i (len2 dn)"
    using i Suc.prems(1) by simp
  have c1: "cost d (i + 1) (len2 dn) = len1 dn - (i + 1)"
    using suffix_edge1[OF s, of "i + 1"] i by simp
  have "(len1 d - i) - (len2 d - (len2 dn + 1)) \<le> cost d i (len2 dn + 1)"
    using cost_lower_diff[of i d "len2 dn + 1"] l i k by simp
  then have "cost d (i + 1) (len2 dn) < cost d i (len2 dn + 1)"
    using c1 l by simp
  then have dr: "dirn d i (len2 dn) = SKIP1" using ne by (simp add: dirn_def)
  have p: "path d i (len2 dn) = StepSkip1 1 # path d (i + 1) (len2 dn)"
    using i l k dr by (subst path.simps) simp
  have "\<forall>i'. i + 1 \<le> i' \<and> i' < len1 dn \<longrightarrow> \<not> Equals (input d) i' (len2 dn)"
    using Suc.prems(1) by simp
  then have "merged (started opn q1 q2) (q1 + 1) q2 (path d (i + 1) (len2 dn)) =
      flushed (if i + 1 < len1 dn then started (started opn q1 q2) (q1 + 1) q2
               else started opn q1 q2) (q1 + 1 + (len1 dn - (i + 1))) q2"
    using Suc.hyps(1)[of "i + 1" "started opn q1 q2" "q1 + 1"] Suc.hyps(2) i
    by simp
  then show ?case using i by (simp add: p algebra_simps)
qed

lemma merged_edge2:
  assumes s: "suffix_of dn d k" and k: "0 < k"
  shows "\<forall>j'. j \<le> j' \<and> j' < len2 dn \<longrightarrow> \<not> Equals (input d) (len1 dn) j' \<Longrightarrow> j \<le> len2 dn \<Longrightarrow>
         merged opn q1 q2 (path d (len1 dn) j) =
           flushed (if j < len2 dn then started opn q1 q2 else opn) q1 (q2 + (len2 dn - j))"
proof (induction "nat (len2 dn - j)" arbitrary: j opn q2)
  case 0
  then have j: "j = len2 dn" by simp
  show ?case
    unfolding j suffix_corner(2)[OF s] using k by (simp add: merged_replicate_flush)
next
  case (Suc m)
  then have j: "j < len2 dn" by simp
  have l: "len1 d = len1 dn + k" "len2 d = len2 dn + k"
    using s by (simp_all add: suffix_of_def)
  have ne: "\<not> Equals (input d) (len1 dn) j"
    using j Suc.prems(1) by simp
  have c2: "cost d (len1 dn) (j + 1) = len2 dn - (j + 1)"
    using suffix_edge2[OF s, of "j + 1"] j by simp
  have "(len2 d - j) - (len1 d - (len1 dn + 1)) \<le> cost d (len1 dn + 1) j"
    using cost_lower_diff[of "len1 dn + 1" d j] l j k by simp
  then have "cost d (len1 dn) (j + 1) < cost d (len1 dn + 1) j"
    using c2 l by simp
  then have dr: "dirn d (len1 dn) j = SKIP2" using ne by (simp add: dirn_def)
  have p: "path d (len1 dn) j = StepSkip2 1 # path d (len1 dn) (j + 1)"
    using j l k dr by (subst path.simps) simp
  have "\<forall>j'. j + 1 \<le> j' \<and> j' < len2 dn \<longrightarrow> \<not> Equals (input d) (len1 dn) j'"
    using Suc.prems(1) by simp
  then have "merged (started opn q1 q2) q1 (q2 + 1) (path d (len1 dn) (j + 1)) =
      flushed (if j + 1 < len2 dn then started (started opn q1 q2) q1 (q2 + 1)
               else started opn q1 q2) q1 (q2 + 1 + (len2 dn - (j + 1)))"
    using Suc.hyps(1)[of "j + 1" "started opn q1 q2" "q2 + 1"] Suc.hyps(2) j
    by simp
  then show ?case using j by (simp add: p algebra_simps)
qed

lemma merged_suffix:
  assumes k: "0 < k"
  shows "suffix_of dn d k \<Longrightarrow>
         tail_fresh dn d (fst (exit_cell dn i j)) (snd (exit_cell dn i j)) \<Longrightarrow>
         i \<le> len1 dn \<Longrightarrow> j \<le> len2 dn \<Longrightarrow>
         merged opn q1 q2 (path d i j) = merged opn q1 q2 (path dn i j)"
proof (induction dn i j arbitrary: opn q1 q2 rule: path.induct)
  case (1 dn i j)
  note s = \<open>suffix_of dn d k\<close>
  note f = \<open>tail_fresh dn d (fst (exit_cell dn i j)) (snd (exit_cell dn i j))\<close>
  have l: "len1 d = len1 dn + k" "len2 d = len2 dn + k"
    using s by (simp_all add: suffix_of_def)
  show ?case
  proof (cases "i < len1 dn \<and> j < len2 dn")
    case True
    then have T: "i < len1 d" "j < len2 d" using l k by simp_all
    have dr: "dirn dn i j = dirn d i j" using dirn_suffix[OF s] True by simp
    show ?thesis
    proof (cases "dirn dn i j")
      case EQ
      have "exit_cell dn i j = exit_cell dn (i + 1) (j + 1)"
        using True EQ by (subst exit_cell.simps) simp
      then have "merged None (q1 + 1) (q2 + 1) (path d (i + 1) (j + 1)) =
          merged None (q1 + 1) (q2 + 1) (path dn (i + 1) (j + 1))"
        using "1.IH"(1)[OF _ _ EQ s] f True by simp
      then show ?thesis
        using True T EQ dr by (subst path.simps, subst (2) path.simps) simp
    next
      case SKIP1
      have "exit_cell dn i j = exit_cell dn (i + 1) j"
        using True SKIP1 by (subst exit_cell.simps) simp
      then have "merged (started opn q1 q2) (q1 + 1) q2 (path d (i + 1) j) =
          merged (started opn q1 q2) (q1 + 1) q2 (path dn (i + 1) j)"
        using "1.IH"(2)[OF _ _ SKIP1 s] f True by simp
      then show ?thesis
        using True T SKIP1 dr by (subst path.simps, subst (2) path.simps) simp
    next
      case SKIP2
      have "exit_cell dn i j = exit_cell dn i (j + 1)"
        using True SKIP2 by (subst exit_cell.simps) simp
      then have "merged (started opn q1 q2) q1 (q2 + 1) (path d i (j + 1)) =
          merged (started opn q1 q2) q1 (q2 + 1) (path dn i (j + 1))"
        using "1.IH"(3)[OF _ _ SKIP2 s] f True by simp
      then show ?thesis
        using True T SKIP2 dr by (subst path.simps, subst (2) path.simps) simp
    next
      case SKIP_ANY
      have "exit_cell dn i j = exit_cell dn i (j + 1)"
        using True SKIP_ANY by (subst exit_cell.simps) simp
      then have "merged (started opn q1 q2) q1 (q2 + 1) (path d i (j + 1)) =
          merged (started opn q1 q2) q1 (q2 + 1) (path dn i (j + 1))"
        using "1.IH"(4)[OF _ _ SKIP_ANY s] f True by simp
      then show ?thesis
        using True T SKIP_ANY dr by (subst path.simps, subst (2) path.simps) simp
    qed
  next
    case False
    then have x: "exit_cell dn i j = (i, j)" by (subst exit_cell.simps) auto
    have fr: "\<forall>i'. i \<le> i' \<and> i' < len1 dn \<longrightarrow> \<not> Equals (input d) i' (len2 dn)"
      "\<forall>j'. j \<le> j' \<and> j' < len2 dn \<longrightarrow> \<not> Equals (input d) (len1 dn) j'"
      using f unfolding x tail_fresh_def by simp_all
    show ?thesis
    proof (cases "i < len1 dn")
      case True
      then have j: "j = len2 dn" using False "1.prems" by simp
      have "path dn i j = [StepSkip1 (len1 dn - i)]"
        using True j by (subst path.simps) simp
      then show ?thesis
        using merged_edge1[OF s k fr(1), of opn q1 q2] True j by simp
    next
      case False
      then have i: "i = len1 dn" using "1.prems" by simp
      have "path dn i j = (if len2 dn \<noteq> j then [StepSkip2 (len2 dn - j)] else [])"
        using i by (subst path.simps) simp
      then show ?thesis
        using merged_edge2[OF s k fr(2), of opn q1 q2] "1.prems" i by auto
    qed
  qed
qed

subsection \<open>\<open>NarrowDownInput\<close> and the run without it\<close>

lemma fits_int32_mono:
  assumes "fits_int32 l1 l2" "0 \<le> m1" "m1 \<le> l1" "0 \<le> m2" "m2 \<le> l2"
  shows "fits_int32 m1 m2"
proof -
  note b = fits_int32D[OF assms(1)]
  have "m1 * m2 \<le> l1 * l2" using assms(2-) by (intro mult_mono) simp_all
  then show ?thesis using b assms(2-) by (simp add: fits_int32_def)
qed

lemma lines_fit_narrowed:
  assumes "fits_int32 (LineEndsWrapper_length (LineEndsWrapper_new s1))
                      (LineEndsWrapper_length (LineEndsWrapper_new s2))"
  shows "CompareStrings_fits s1 s2"
  unfolding CompareStrings_fits_iff
  using prefix_facts(1)[of s1 s2] suffix_facts(1,2,3)[of s1 s2]
  by (intro fits_int32_mono[OF assms]) simp_all

lemma diff_chunks_suffix_narrow:
  assumes s: "suffix_of (Differencer_new inpn) (Differencer_new inp) k"
    and f: "k = 0 \<or> tail_fresh (Differencer_new inpn) (Differencer_new inp)
                       (fst (exit_cell (Differencer_new inpn) 0 0))
                       (snd (exit_cell (Differencer_new inpn) 0 0))"
  shows "diff_chunks inp = diff_chunks inpn"
proof (cases "k = 0")
  case True
  then have "GetLength1 inp = GetLength1 inpn" "GetLength2 inp = GetLength2 inpn"
    "Equals inp = Equals inpn"
    using s by (simp_all add: suffix_of_def)
  then have "inp = inpn" by simp
  then show ?thesis by simp
next
  case False
  then have k: "0 < k"
    and fr: "tail_fresh (Differencer_new inpn) (Differencer_new inp)
                       (fst (exit_cell (Differencer_new inpn) 0 0))
                       (snd (exit_cell (Differencer_new inpn) 0 0))"
    using s f by (simp_all add: suffix_of_def)
  have "0 \<le> len1 (Differencer_new inpn)" "0 \<le> len2 (Differencer_new inpn)"
    using s by (simp_all add: suffix_of_def)
  from merged_suffix[OF k s fr this, of None 0 0]
  show ?thesis by (simp add: diff_chunks_def)
qed

lemma cost_suffix_narrow:
  assumes "suffix_of (Differencer_new inpn) (Differencer_new inp) k"
  shows "chunks_size (diff_chunks inp) = chunks_size (diff_chunks inpn)"
  using cost_suffix[OF assms, of 0 0] assms
  by (simp add: diff_chunks_size suffix_of_def)

lemma chunks_size_shift [simp]: "chunks_size (map (shift o1 o2) cs) = chunks_size cs"
  by (induction cs) (auto simp: shift_def)

text \<open>The line input with the common prefix trimmed and the common suffix kept.\<close>

lemma narrowing_in_two_steps:
  fixes s1 s2
  defines "E \<equiv> line_eq (LineEndsWrapper_new s1) (LineEndsWrapper_new s2) s1 s2"
    and "p \<equiv> common_prefix_len s1 s2"
  defines "inpp \<equiv> \<lparr>GetLength1 = LineEndsWrapper_length (LineEndsWrapper_new s1) - p,
                    GetLength2 = LineEndsWrapper_length (LineEndsWrapper_new s2) - p,
                    Equals = (\<lambda>i j. E (p + i) (p + j))\<rparr>"
  shows "diff_chunks (LineArray_Input (line_input s1 s2)) = map (shift p p) (diff_chunks inpp)"
    and "suffix_of (Differencer_new (LineArray_Input (narrowed_input s1 s2)))
           (Differencer_new inpp) (common_suffix_len s1 s2)"
proof -
  note pf = prefix_facts[of s1 s2] and sf = suffix_facts[of s1 s2]
  show "diff_chunks (LineArray_Input (line_input s1 s2)) = map (shift p p) (diff_chunks inpp)"
    by (rule diff_chunks_prefix_narrow)
      (use pf in \<open>simp_all add: inpp_def p_def E_def\<close>)
  let ?L1 = "LineEndsWrapper_length (LineEndsWrapper_new s1)"
  let ?L2 = "LineEndsWrapper_length (LineEndsWrapper_new s2)"
  let ?s = "common_suffix_len s1 s2"
  have "diag E (?L1 - ?s) (?L2 - ?s) ?s" using sf(4) by (simp add: E_def)
  then have "diag (\<lambda>i j. E (p + i) (p + j)) (?L1 - ?s - p) (?L2 - ?s - p) ?s"
    by (simp add: diag_shift)
  then show "suffix_of (Differencer_new (LineArray_Input (narrowed_input s1 s2)))
           (Differencer_new inpp) (common_suffix_len s1 s2)"
    using sf(1,2,3) by (simp add: suffix_of_def inpp_def p_def E_def)
qed

lemma fresh_line_chunks:
  assumes "suffix_line_fresh s1 s2"
  shows "diff_chunks (LineArray_Input (line_input s1 s2)) = line_chunks s1 s2"
proof -
  let ?E = "line_eq (LineEndsWrapper_new s1) (LineEndsWrapper_new s2) s1 s2"
  let ?p = "common_prefix_len s1 s2" and ?s = "common_suffix_len s1 s2"
  let ?L1 = "LineEndsWrapper_length (LineEndsWrapper_new s1)"
  let ?L2 = "LineEndsWrapper_length (LineEndsWrapper_new s2)"
  let ?inpp = "\<lparr>GetLength1 = ?L1 - ?p, GetLength2 = ?L2 - ?p, Equals = (\<lambda>i j. ?E (?p + i) (?p + j))\<rparr>"
  let ?inpn = "LineArray_Input (narrowed_input s1 s2)"
  note t = narrowing_in_two_steps[of s1 s2]
  obtain x1 x2 where x: "exit_cell (Differencer_new ?inpn) 0 0 = (x1, x2)"
    by (cases "exit_cell (Differencer_new ?inpn) 0 0")
  have "?s = 0 \<or> tail_fresh (Differencer_new ?inpn) (Differencer_new ?inpp)
      (fst (exit_cell (Differencer_new ?inpn) 0 0)) (snd (exit_cell (Differencer_new ?inpn) 0 0))"
  proof (cases "?s = 0")
    case True
    then show ?thesis by simp
  next
    case False
    then have a: "\<forall>i\<in>{?p + x1..<?L1 - ?s}. \<not> ?E i (?L2 - ?s)"
      "\<forall>j\<in>{?p + x2..<?L2 - ?s}. \<not> ?E (?L1 - ?s) j"
      using assms by (simp_all add: suffix_line_fresh_def Let_def x)
    have "\<not> ?E (?p + i) (?p + (?L2 - ?s - ?p))" if "x1 \<le> i" "i < ?L1 - ?s - ?p" for i
    proof -
      have "?p + i \<in> {?p + x1..<?L1 - ?s}" using that by simp
      then show ?thesis using a(1) by simp
    qed
    moreover have "\<not> ?E (?p + (?L1 - ?s - ?p)) (?p + j)" if "x2 \<le> j" "j < ?L2 - ?s - ?p" for j
    proof -
      have "?p + j \<in> {?p + x2..<?L2 - ?s}" using that by simp
      then show ?thesis using a(2) by simp
    qed
    ultimately show ?thesis by (simp add: tail_fresh_def x)
  qed
  from diff_chunks_suffix_narrow[OF t(2) this] show ?thesis
    unfolding t(1) line_chunks_def by simp
qed

lemma line_chunks_same_size:
  "chunks_size (diff_chunks (LineArray_Input (line_input s1 s2))) = chunks_size (line_chunks s1 s2)"
  using narrowing_in_two_steps[of s1 s2] cost_suffix_narrow
  by (simp add: line_chunks_def)

subsection \<open>When the tail meets the first element of the suffix, the chunks differ\<close>

lemma merged_starts:
  assumes "p1 \<le> len1 d" "p2 \<le> len2 d" "(a, b, l1, l2) \<in> set (merged None p1 p2 (path d p1 p2))"
  shows "p1 \<le> a"
proof -
  have "covers (Equals (input d)) p1 p2 (len1 d) (len2 d) (merged None p1 p2 (path d p1 p2))"
    using merged_covers[OF path_aligns[OF assms(1,2)], of None] by simp
  from covers_chunk_bounds[OF this assms(3)] show ?thesis by simp
qed

lemma merged_starts2:
  assumes "p1 \<le> len1 d" "p2 \<le> len2 d" "(a, b, l1, l2) \<in> set (merged None p1 p2 (path d p1 p2))"
  shows "p2 \<le> b"
proof -
  have "covers (Equals (input d)) p1 p2 (len1 d) (len2 d) (merged None p1 p2 (path d p1 p2))"
    using merged_covers[OF path_aligns[OF assms(1,2)], of None] by simp
  from covers_chunk_bounds[OF this assms(3)] show ?thesis by simp
qed

lemma edge1_differs:
  assumes s: "suffix_of dn d k" and k: "0 < k"
  shows "i < len1 dn \<Longrightarrow> \<exists>i'. i \<le> i' \<and> i' < len1 dn \<and> Equals (input d) i' (len2 dn) \<Longrightarrow>
         merged opn i (len2 dn) (path d i (len2 dn)) \<noteq>
           flushed (started opn i (len2 dn)) (len1 dn) (len2 dn)"
proof (induction "nat (len1 dn - i)" arbitrary: i opn)
  case 0
  then show ?case by simp
next
  case (Suc m)
  note i = \<open>i < len1 dn\<close>
  have l: "len1 d = len1 dn + k" "len2 d = len2 dn + k"
    using s by (simp_all add: suffix_of_def)
  show ?case
  proof (cases "Equals (input d) i (len2 dn)")
    case True
    then have p: "path d i (len2 dn) = StepEq # path d (i + 1) (len2 dn + 1)"
      using i l k dirn_EQ_iff[of d i "len2 dn"] by (subst path.simps) simp
    show ?thesis
    proof (cases opn)
      case None
      have "(i, len2 dn, len1 dn - i, 0) \<notin>
          set (merged None (i + 1) (len2 dn + 1) (path d (i + 1) (len2 dn + 1)))"
        using merged_starts[of "i + 1" d "len2 dn + 1" i "len2 dn" "len1 dn - i" 0] i l k
        by auto
      then have "merged None (i + 1) (len2 dn + 1) (path d (i + 1) (len2 dn + 1)) \<noteq>
          [(i, len2 dn, len1 dn - i, 0)]"
        by auto
      then show ?thesis by (simp add: p None)
    next
      case (Some bb)
      obtain b1 b2 where bb: "bb = (b1, b2)" by (cases bb)
      show ?thesis using i by (simp add: p Some bb)
    qed
  next
    case False
    then obtain i' where i': "i + 1 \<le> i'" "i' < len1 dn" "Equals (input d) i' (len2 dn)"
      using Suc.prems(2) by (metis add.commute less_le zless_imp_add1_zle)
    then have i1: "i + 1 < len1 dn" by simp
    have c1: "cost d (i + 1) (len2 dn) = len1 dn - (i + 1)"
      using suffix_edge1[OF s, of "i + 1"] i by simp
    have "(len1 d - i) - (len2 d - (len2 dn + 1)) \<le> cost d i (len2 dn + 1)"
      using cost_lower_diff[of i d "len2 dn + 1"] l i k by simp
    then have "cost d (i + 1) (len2 dn) < cost d i (len2 dn + 1)"
      using c1 l by simp
    then have dr: "dirn d i (len2 dn) = SKIP1" using False by (simp add: dirn_def)
    have p: "path d i (len2 dn) = StepSkip1 1 # path d (i + 1) (len2 dn)"
      using i l k dr by (subst path.simps) simp
    have m: "m = nat (len1 dn - (i + 1))" using Suc.hyps(2) by linarith
    have ex: "\<exists>i'. i + 1 \<le> i' \<and> i' < len1 dn \<and> Equals (input d) i' (len2 dn)"
      using i' by blast
    have "merged (started opn i (len2 dn)) (i + 1) (len2 dn) (path d (i + 1) (len2 dn)) \<noteq>
        flushed (started (started opn i (len2 dn)) (i + 1) (len2 dn)) (len1 dn) (len2 dn)"
      by (rule Suc.hyps(1)[OF m i1 ex])
    then show ?thesis by (simp add: p)
  qed
qed

lemma edge2_differs:
  assumes s: "suffix_of dn d k" and k: "0 < k"
  shows "j < len2 dn \<Longrightarrow> \<exists>j'. j \<le> j' \<and> j' < len2 dn \<and> Equals (input d) (len1 dn) j' \<Longrightarrow>
         merged opn (len1 dn) j (path d (len1 dn) j) \<noteq>
           flushed (started opn (len1 dn) j) (len1 dn) (len2 dn)"
proof (induction "nat (len2 dn - j)" arbitrary: j opn)
  case 0
  then show ?case by simp
next
  case (Suc m)
  note j = \<open>j < len2 dn\<close>
  have l: "len1 d = len1 dn + k" "len2 d = len2 dn + k"
    using s by (simp_all add: suffix_of_def)
  show ?case
  proof (cases "Equals (input d) (len1 dn) j")
    case True
    then have p: "path d (len1 dn) j = StepEq # path d (len1 dn + 1) (j + 1)"
      using j l k dirn_EQ_iff[of d "len1 dn" j] by (subst path.simps) simp
    show ?thesis
    proof (cases opn)
      case None
      have "(len1 dn, j, 0, len2 dn - j) \<notin>
          set (merged None (len1 dn + 1) (j + 1) (path d (len1 dn + 1) (j + 1)))"
        using merged_starts2[of "len1 dn + 1" d "j + 1" "len1 dn" j 0 "len2 dn - j"] j l k
        by auto
      then have "merged None (len1 dn + 1) (j + 1) (path d (len1 dn + 1) (j + 1)) \<noteq>
          [(len1 dn, j, 0, len2 dn - j)]"
        by auto
      then show ?thesis by (simp add: p None)
    next
      case (Some bb)
      obtain b1 b2 where bb: "bb = (b1, b2)" by (cases bb)
      show ?thesis using j by (simp add: p Some bb)
    qed
  next
    case False
    then obtain j' where j': "j + 1 \<le> j'" "j' < len2 dn" "Equals (input d) (len1 dn) j'"
      using Suc.prems(2) by (metis add.commute less_le zless_imp_add1_zle)
    then have j1: "j + 1 < len2 dn" by simp
    have c2: "cost d (len1 dn) (j + 1) = len2 dn - (j + 1)"
      using suffix_edge2[OF s, of "j + 1"] j by simp
    have "(len2 d - j) - (len1 d - (len1 dn + 1)) \<le> cost d (len1 dn + 1) j"
      using cost_lower_diff[of "len1 dn + 1" d j] l j k by simp
    then have "cost d (len1 dn) (j + 1) < cost d (len1 dn + 1) j"
      using c2 l by simp
    then have dr: "dirn d (len1 dn) j = SKIP2" using False by (simp add: dirn_def)
    have p: "path d (len1 dn) j = StepSkip2 1 # path d (len1 dn) (j + 1)"
      using j l k dr by (subst path.simps) simp
    have m: "m = nat (len2 dn - (j + 1))" using Suc.hyps(2) by linarith
    have ex: "\<exists>j'. j + 1 \<le> j' \<and> j' < len2 dn \<and> Equals (input d) (len1 dn) j'"
      using j' by blast
    have "merged (started opn (len1 dn) j) (len1 dn) (j + 1) (path d (len1 dn) (j + 1)) \<noteq>
        flushed (started (started opn (len1 dn) j) (len1 dn) (j + 1)) (len1 dn) (len2 dn)"
      by (rule Suc.hyps(1)[OF m j1 ex])
    then show ?thesis by (simp add: p)
  qed
qed

lemma merged_suffix_differs:
  assumes k: "0 < k"
  shows "suffix_of dn d k \<Longrightarrow>
         \<not> tail_fresh dn d (fst (exit_cell dn i j)) (snd (exit_cell dn i j)) \<Longrightarrow>
         i \<le> len1 dn \<Longrightarrow> j \<le> len2 dn \<Longrightarrow>
         merged opn i j (path d i j) \<noteq> merged opn i j (path dn i j)"
proof (induction dn i j arbitrary: opn rule: path.induct)
  case (1 dn i j)
  note s = \<open>suffix_of dn d k\<close>
  note f = \<open>\<not> tail_fresh dn d (fst (exit_cell dn i j)) (snd (exit_cell dn i j))\<close>
  have l: "len1 d = len1 dn + k" "len2 d = len2 dn + k"
    using s by (simp_all add: suffix_of_def)
  show ?case
  proof (cases "i < len1 dn \<and> j < len2 dn")
    case True
    then have T: "i < len1 d" "j < len2 d" using l k by simp_all
    have dr: "dirn dn i j = dirn d i j" using dirn_suffix[OF s] True by simp
    show ?thesis
    proof (cases "dirn dn i j")
      case EQ
      have "exit_cell dn i j = exit_cell dn (i + 1) (j + 1)"
        using True EQ by (subst exit_cell.simps) simp
      then have "merged None (i + 1) (j + 1) (path d (i + 1) (j + 1)) \<noteq>
          merged None (i + 1) (j + 1) (path dn (i + 1) (j + 1))"
        using "1.IH"(1)[OF _ _ EQ s] f True by simp
      then show ?thesis
        using True T EQ dr by (subst path.simps, subst (2) path.simps) simp
    next
      case SKIP1
      have "exit_cell dn i j = exit_cell dn (i + 1) j"
        using True SKIP1 by (subst exit_cell.simps) simp
      then have "merged (started opn i j) (i + 1) j (path d (i + 1) j) \<noteq>
          merged (started opn i j) (i + 1) j (path dn (i + 1) j)"
        using "1.IH"(2)[OF _ _ SKIP1 s] f True by simp
      then show ?thesis
        using True T SKIP1 dr by (subst path.simps, subst (2) path.simps) simp
    next
      case SKIP2
      have "exit_cell dn i j = exit_cell dn i (j + 1)"
        using True SKIP2 by (subst exit_cell.simps) simp
      then have "merged (started opn i j) i (j + 1) (path d i (j + 1)) \<noteq>
          merged (started opn i j) i (j + 1) (path dn i (j + 1))"
        using "1.IH"(3)[OF _ _ SKIP2 s] f True by simp
      then show ?thesis
        using True T SKIP2 dr by (subst path.simps, subst (2) path.simps) simp
    next
      case SKIP_ANY
      have "exit_cell dn i j = exit_cell dn i (j + 1)"
        using True SKIP_ANY by (subst exit_cell.simps) simp
      then have "merged (started opn i j) i (j + 1) (path d i (j + 1)) \<noteq>
          merged (started opn i j) i (j + 1) (path dn i (j + 1))"
        using "1.IH"(4)[OF _ _ SKIP_ANY s] f True by simp
      then show ?thesis
        using True T SKIP_ANY dr by (subst path.simps, subst (2) path.simps) simp
    qed
  next
    case False
    then have x: "exit_cell dn i j = (i, j)" by (subst exit_cell.simps) auto
    have fr: "(\<exists>i'. i \<le> i' \<and> i' < len1 dn \<and> Equals (input d) i' (len2 dn)) \<or>
      (\<exists>j'. j \<le> j' \<and> j' < len2 dn \<and> Equals (input d) (len1 dn) j')"
      using f unfolding x tail_fresh_def by auto
    show ?thesis
    proof (cases "i < len1 dn")
      case True
      then have j: "j = len2 dn" using False "1.prems" by simp
      have e: "\<exists>i'. i \<le> i' \<and> i' < len1 dn \<and> Equals (input d) i' (len2 dn)"
        using fr j by auto
      have "path dn i j = [StepSkip1 (len1 dn - i)]"
        using True j by (subst path.simps) simp
      then show ?thesis
        using edge1_differs[OF s k True e, of opn] j by simp
    next
      case False
      then have i: "i = len1 dn" using "1.prems" by simp
      then have e: "\<exists>j'. j \<le> j' \<and> j' < len2 dn \<and> Equals (input d) (len1 dn) j'"
        using fr by auto
      then have jl: "j < len2 dn" by auto
      have "path dn i j = [StepSkip2 (len2 dn - j)]"
        using i jl by (subst path.simps) simp
      then show ?thesis
        using edge2_differs[OF s k jl e, of opn] i by simp
    qed
  qed
qed

lemma map_shift_inj: "map (shift o1 o2) cs = map (shift o1 o2) ds \<longleftrightarrow> cs = ds"
proof -
  have "inj (shift o1 o2)" by (auto simp: inj_def shift_def)
  then show ?thesis by (simp add: inj_map_eq_map)
qed

lemma diff_chunks_suffix_iff:
  assumes s: "suffix_of (Differencer_new inpn) (Differencer_new inp) k"
  shows "diff_chunks inp = diff_chunks inpn \<longleftrightarrow>
         k = 0 \<or> tail_fresh (Differencer_new inpn) (Differencer_new inp)
                       (fst (exit_cell (Differencer_new inpn) 0 0))
                       (snd (exit_cell (Differencer_new inpn) 0 0))"
proof
  assume "k = 0 \<or> tail_fresh (Differencer_new inpn) (Differencer_new inp)
                       (fst (exit_cell (Differencer_new inpn) 0 0))
                       (snd (exit_cell (Differencer_new inpn) 0 0))"
  from diff_chunks_suffix_narrow[OF s this] show "diff_chunks inp = diff_chunks inpn" .
next
  assume e: "diff_chunks inp = diff_chunks inpn"
  show "k = 0 \<or> tail_fresh (Differencer_new inpn) (Differencer_new inp)
                       (fst (exit_cell (Differencer_new inpn) 0 0))
                       (snd (exit_cell (Differencer_new inpn) 0 0))"
  proof (rule ccontr)
    assume n: "\<not> ?thesis"
    then have k: "0 < k" using s by (simp add: suffix_of_def)
    have "0 \<le> len1 (Differencer_new inpn)" "0 \<le> len2 (Differencer_new inpn)"
      using s by (simp_all add: suffix_of_def)
    from merged_suffix_differs[OF k s _ this, of None] n e
    show False by (simp add: diff_chunks_def)
  qed
qed

lemma fresh_line_chunks_iff:
  "diff_chunks (LineArray_Input (line_input s1 s2)) = line_chunks s1 s2 \<longleftrightarrow>
   suffix_line_fresh s1 s2"
proof -
  let ?E = "line_eq (LineEndsWrapper_new s1) (LineEndsWrapper_new s2) s1 s2"
  let ?p = "common_prefix_len s1 s2" and ?s = "common_suffix_len s1 s2"
  let ?L1 = "LineEndsWrapper_length (LineEndsWrapper_new s1)"
  let ?L2 = "LineEndsWrapper_length (LineEndsWrapper_new s2)"
  let ?inpp = "\<lparr>GetLength1 = ?L1 - ?p, GetLength2 = ?L2 - ?p, Equals = (\<lambda>i j. ?E (?p + i) (?p + j))\<rparr>"
  let ?inpn = "LineArray_Input (narrowed_input s1 s2)"
  note t = narrowing_in_two_steps[of s1 s2]
  obtain x1 x2 where x: "exit_cell (Differencer_new ?inpn) 0 0 = (x1, x2)"
    by (cases "exit_cell (Differencer_new ?inpn) 0 0")
  have a: "(\<forall>i\<in>{?p + x1..<?L1 - ?s}. \<not> ?E i (?L2 - ?s)) \<longleftrightarrow>
      (\<forall>i. x1 \<le> i \<and> i < ?L1 - ?s - ?p \<longrightarrow> \<not> ?E (?p + i) (?p + (?L2 - ?s - ?p)))"
  proof
    assume h: "\<forall>i\<in>{?p + x1..<?L1 - ?s}. \<not> ?E i (?L2 - ?s)"
    show "\<forall>i. x1 \<le> i \<and> i < ?L1 - ?s - ?p \<longrightarrow> \<not> ?E (?p + i) (?p + (?L2 - ?s - ?p))"
    proof (intro allI impI)
      fix i assume "x1 \<le> i \<and> i < ?L1 - ?s - ?p"
      then have "?p + i \<in> {?p + x1..<?L1 - ?s}" by simp
      then show "\<not> ?E (?p + i) (?p + (?L2 - ?s - ?p))" using h by simp
    qed
  next
    assume h: "\<forall>i. x1 \<le> i \<and> i < ?L1 - ?s - ?p \<longrightarrow> \<not> ?E (?p + i) (?p + (?L2 - ?s - ?p))"
    show "\<forall>i\<in>{?p + x1..<?L1 - ?s}. \<not> ?E i (?L2 - ?s)"
    proof
      fix i assume "i \<in> {?p + x1..<?L1 - ?s}"
      then have "x1 \<le> i - ?p \<and> i - ?p < ?L1 - ?s - ?p" by simp
      then have "\<not> ?E (?p + (i - ?p)) (?p + (?L2 - ?s - ?p))" using h by blast
      then show "\<not> ?E i (?L2 - ?s)" by simp
    qed
  qed
  have b: "(\<forall>j\<in>{?p + x2..<?L2 - ?s}. \<not> ?E (?L1 - ?s) j) \<longleftrightarrow>
      (\<forall>j. x2 \<le> j \<and> j < ?L2 - ?s - ?p \<longrightarrow> \<not> ?E (?p + (?L1 - ?s - ?p)) (?p + j))"
  proof
    assume h: "\<forall>j\<in>{?p + x2..<?L2 - ?s}. \<not> ?E (?L1 - ?s) j"
    show "\<forall>j. x2 \<le> j \<and> j < ?L2 - ?s - ?p \<longrightarrow> \<not> ?E (?p + (?L1 - ?s - ?p)) (?p + j)"
    proof (intro allI impI)
      fix j assume "x2 \<le> j \<and> j < ?L2 - ?s - ?p"
      then have "?p + j \<in> {?p + x2..<?L2 - ?s}" by simp
      then show "\<not> ?E (?p + (?L1 - ?s - ?p)) (?p + j)" using h by simp
    qed
  next
    assume h: "\<forall>j. x2 \<le> j \<and> j < ?L2 - ?s - ?p \<longrightarrow> \<not> ?E (?p + (?L1 - ?s - ?p)) (?p + j)"
    show "\<forall>j\<in>{?p + x2..<?L2 - ?s}. \<not> ?E (?L1 - ?s) j"
    proof
      fix j assume "j \<in> {?p + x2..<?L2 - ?s}"
      then have "x2 \<le> j - ?p \<and> j - ?p < ?L2 - ?s - ?p" by simp
      then have "\<not> ?E (?p + (?L1 - ?s - ?p)) (?p + (j - ?p))" using h by blast
      then show "\<not> ?E (?L1 - ?s) j" by simp
    qed
  qed
  have "suffix_line_fresh s1 s2 \<longleftrightarrow>
      ?s = 0 \<or> tail_fresh (Differencer_new ?inpn) (Differencer_new ?inpp)
        (fst (exit_cell (Differencer_new ?inpn) 0 0)) (snd (exit_cell (Differencer_new ?inpn) 0 0))"
    unfolding suffix_line_fresh_def Let_def x prod.case fst_conv snd_conv tail_fresh_def
    using a b by simp
  then show ?thesis
    unfolding t(1) line_chunks_def map_shift_inj diff_chunks_suffix_iff[OF t(2)] by simp
qed

subsection \<open>A run of skips moves the cursors and opens one chunk\<close>

lemma StartChunk_open: "has_open_chunk w \<Longrightarrow> StartChunk w = w"
  by (simp add: StartChunk_def)

lemma feed_skips:
  "list_all is_skip ss \<Longrightarrow> ss \<noteq> [] \<Longrightarrow>
   feed ac w ss = (StartChunk w)\<lparr>pos1 := pos1 w + skipped1 ss, pos2 := pos2 w + skipped2 ss\<rparr>"
proof (induction ss arbitrary: w)
  case Nil
  then show ?case by simp
next
  case (Cons s ss)
  show ?case
  proof (cases "ss = []")
    case True
    then show ?thesis
      using Cons.prems by (cases s) (simp_all add: skip1_def skip2_def Let_def StartChunk_def)
  next
    case False
    have o: "has_open_chunk (apply_step ac w s)"
      using Cons.prems by (cases s) (simp_all add: skip1_def skip2_def Let_def StartChunk_def)
    have "feed ac (apply_step ac w s) ss =
        (StartChunk (apply_step ac w s))\<lparr>pos1 := pos1 (apply_step ac w s) + skipped1 ss,
                                          pos2 := pos2 (apply_step ac w s) + skipped2 ss\<rparr>"
      using Cons.IH[of "apply_step ac w s"] Cons.prems False by simp
    then show ?thesis
      unfolding feed_Cons StartChunk_open[OF o]
      using Cons.prems by (cases s) (simp_all add: skip1_def skip2_def Let_def StartChunk_def)
  qed
qed

lemma nested_record:
  assumes "l1 < CHUNK_LEN_LIMIT" "l2 < CHUNK_LEN_LIMIT"
  shows "CalculateDifference record_chunk (TokensCompareInput s1 p1 l1 s2 p2 l2) [] =
           diff_chunks (TokensCompareInput s1 p1 l1 s2 p2 l2)"
  using nested_run_chunks[OF assms, of record_chunk s1 p1 s2 p2 "[]"] by (simp add: replay_record)

section \<open>The claims\<close>

text \<open>
  The claims about \<open>CompareStrings\<close> on two texts are stated for texts whose table fits
  (\<open>CompareStrings_fits\<close>): with \<open>n1\<close> and \<open>n2\<close> the numbers of lines that
  \<open>NarrowDownInput\<close> leaves, \<open>n1 * n2 < 2^31\<close> and \<open>n1 + n2 < 2^29\<close>. The source makes
  no such check; beyond these bounds its 32-bit table size or shifted costs wrap around.
\<close>





text \<open>
  C8. \<open>CompareStrings\<close> on the empty text and \<open>abc\<close> yields the one chunk
  \<open>(0, 0, 0, 3)\<close>; on \<open>abc\<close> and the empty text the one chunk \<open>(0, 0, 3, 0)\<close>; on two
  empty texts no chunk. The returned arrays hold the triples \<open>(0, 0, 3)\<close>, \<open>(0, 3, 0)\<close>
  and nothing.
\<close>

theorem CompareStrings_empty_inputs:
  "CompareStrings_chunks '''' ''abc'' = [(0, 0, 0, 3)] \<and>
   CompareStrings_chunks ''abc'' '''' = [(0, 0, 3, 0)] \<and>
   CompareStrings_chunks '''' '''' = [] \<and>
   triples (CompareStrings '''' ''abc'') = [(0, 0, 3)] \<and>
   triples (CompareStrings ''abc'' '''') = [(0, 3, 0)] \<and>
   triples (CompareStrings '''' '''') = []"
  by code_simp





text \<open>
  The cost in C2 is the number of skipped elements. For the other cost,
  \<open>max aLen 1 + max bLen 1\<close> for every chunk, the emitted covering is not always the
  cheapest: for \<open>bb\<close> against \<open>ab\<close> the engine inserts \<open>a\<close> and deletes the last \<open>b\<close>
  (two chunks, cost 4), and the covering that replaces the first \<open>b\<close> by \<open>a\<close> has cost 2.
  Both have two skipped elements.
\<close>

lemma max_cost_not_minimal:
  "CalculateDifference record_chunk bb_ab_input [] = [(0, 0, 0, 1), (1, 2, 1, 0)] \<and>
   covers (Equals bb_ab_input) 0 0 (GetLength1 bb_ab_input) (GetLength2 bb_ab_input) [(0, 0, 1, 1)] \<and>
   chunks_cost_max [(0, 0, 1, 1)] < chunks_cost_max (CalculateDifference record_chunk bb_ab_input []) \<and>
   chunks_size [(0, 0, 1, 1)] = chunks_size (CalculateDifference record_chunk bb_ab_input [])"
proof -
  have a: "CalculateDifference record_chunk bb_ab_input [] = [(0, 0, 0, 1), (1, 2, 1, 0)]"
    by code_simp
  have b: "covers (Equals bb_ab_input) 0 0 (GetLength1 bb_ab_input) (GetLength2 bb_ab_input)
      [(0, 0, 1, 1)]"
    by (simp add: bb_ab_input_def diag_1 same_char_def Get_def)
  show ?thesis unfolding a using b by (simp add: chunks_cost_max_def)
qed

text \<open>
  Outside the bounds of C2 the arithmetic of the source wraps around. With \<open>len1 = 0\<close>
  and \<open>len2 = 2^29\<close> the shifted cost \<open>2^29 << 2\<close> returned at \<open>(0, 0)\<close> is
  \<open>-2^31\<close>; with \<open>len1 = len2 = 65536\<close> the product \<open>len1 * len2\<close> is 0 as an \<open>int\<close>
  and the table has no cell.
\<close>

lemma arithmetic_wraps_outside_bounds:
  "fst (CompareUpToTail \<lparr>input = inp, len1 = 0, len2 = 2 ^ 29\<rparr> buf 0 0) = - (2 ^ 31) \<and>
   Initialize \<lparr>input = inp, len1 = 65536, len2 = 65536\<rparr> = [] \<and>
   \<not> fits_int32 0 (2 ^ 29) \<and> \<not> fits_int32 65536 65536"
  by (simp add: CompareUpToTail.simps Initialize_def int32_def fits_int32_def
      kDirectionSizeBits_def)

text \<open>
  C7. On an "equal" step the merger first closes an open chunk, emitting it with the
  pending start positions and with the lengths current minus pending, then advances both
  cursors by one and has no chunk open. A run of skip steps, of any mix of kinds, fed to
  a merger that has no chunk open (as at the start and after every equal step) opens one
  chunk at the cursors where the run begins and moves each cursor by the elements
  skipped on its side: the equal step, or the \<open>close\<close>, that ends the run emits that one
  chunk, with the start positions of the run and with the two numbers of skipped elements
  as lengths. For every stream of steps fed to a fresh merger and closed, the number of
  chunks emitted is the number of maximal runs of skip steps: one chunk for a run, never
  two.
\<close>

theorem merger_equal_step_and_runs:
  "eq ac w =
     (if has_open_chunk w
      then w\<lparr>chunk_writer :=
                ac (pos1_begin w) (pos2_begin w)
                   (pos1 w - pos1_begin w) (pos2 w - pos2_begin w) (chunk_writer w),
              pos1 := pos1 w + 1, pos2 := pos2 w + 1, has_open_chunk := False\<rparr>
      else w\<lparr>pos1 := pos1 w + 1, pos2 := pos2 w + 1\<rparr>) \<and>
   \<not> has_open_chunk (eq ac w) \<and>
   (\<not> has_open_chunk w \<and> ss \<noteq> [] \<and> list_all is_skip ss \<longrightarrow>
      eq ac (feed ac w ss) =
        w\<lparr>chunk_writer := ac (pos1 w) (pos2 w) (skipped1 ss) (skipped2 ss) (chunk_writer w),
          pos1 := pos1 w + skipped1 ss + 1, pos2 := pos2 w + skipped2 ss + 1,
          pos1_begin := pos1 w, pos2_begin := pos2 w, has_open_chunk := False\<rparr> \<and>
      close ac (feed ac w ss) =
        w\<lparr>chunk_writer := ac (pos1 w) (pos2 w) (skipped1 ss) (skipped2 ss) (chunk_writer w),
          pos1 := pos1 w + skipped1 ss, pos2 := pos2 w + skipped2 ss,
          pos1_begin := pos1 w, pos2_begin := pos2 w, has_open_chunk := False\<rparr>) \<and>
   length (chunk_writer (close record_chunk (feed record_chunk (ResultWriter_new []) ts))) = runs ts"
proof (intro conjI impI)
  show "eq ac w =
     (if has_open_chunk w
      then w\<lparr>chunk_writer :=
                ac (pos1_begin w) (pos2_begin w)
                   (pos1 w - pos1_begin w) (pos2 w - pos2_begin w) (chunk_writer w),
              pos1 := pos1 w + 1, pos2 := pos2 w + 1, has_open_chunk := False\<rparr>
      else w\<lparr>pos1 := pos1 w + 1, pos2 := pos2 w + 1\<rparr>)"
    by (simp add: eq_def FlushChunk_def Let_def)
  show "\<not> has_open_chunk (eq ac w)"
    by (simp add: eq_def FlushChunk_def Let_def)
  show "length (chunk_writer (close record_chunk (feed record_chunk (ResultWriter_new []) ts))) = runs ts"
    by (simp add: writer_merged length_merged ResultWriter_new_def open_of_def)
next
  assume a: "\<not> has_open_chunk w \<and> ss \<noteq> [] \<and> list_all is_skip ss"
  then have f: "feed ac w ss =
      (StartChunk w)\<lparr>pos1 := pos1 w + skipped1 ss, pos2 := pos2 w + skipped2 ss\<rparr>"
    by (intro feed_skips) simp_all
  show "eq ac (feed ac w ss) =
        w\<lparr>chunk_writer := ac (pos1 w) (pos2 w) (skipped1 ss) (skipped2 ss) (chunk_writer w),
          pos1 := pos1 w + skipped1 ss + 1, pos2 := pos2 w + skipped2 ss + 1,
          pos1_begin := pos1 w, pos2_begin := pos2 w, has_open_chunk := False\<rparr>"
    unfolding f using a by (simp add: eq_def FlushChunk_def StartChunk_def Let_def)
  show "close ac (feed ac w ss) =
        w\<lparr>chunk_writer := ac (pos1 w) (pos2 w) (skipped1 ss) (skipped2 ss) (chunk_writer w),
          pos1 := pos1 w + skipped1 ss, pos2 := pos2 w + skipped2 ss,
          pos1_begin := pos1 w, pos2_begin := pos2 w, has_open_chunk := False\<rparr>"
    unfolding f using a by (simp add: close_def FlushChunk_def StartChunk_def Let_def)
qed


theorem merger_equal_step_and_runs_witness:
  "eq record_chunk (feed record_chunk (ResultWriter_new []) [StepSkip1 2, StepSkip2 1]) =
     \<lparr>chunk_writer = [(0, 0, 2, 1)], pos1 = 3, pos2 = 2, pos1_begin = 0, pos2_begin = 0,
      has_open_chunk = False\<rparr> \<and>
   close record_chunk (feed record_chunk (ResultWriter_new []) [StepSkip1 2, StepSkip2 1]) =
     \<lparr>chunk_writer = [(0, 0, 2, 1)], pos1 = 2, pos2 = 1, pos1_begin = 0, pos2_begin = 0,
      has_open_chunk = False\<rparr>"
proof -
  have h: "\<not> has_open_chunk (ResultWriter_new [] :: chunk list ResultWriter) \<and>
      [StepSkip1 2, StepSkip2 1] \<noteq> [] \<and> list_all is_skip [StepSkip1 2, StepSkip2 1]"
    by (simp add: ResultWriter_new_def)
  note t = merger_equal_step_and_runs[of record_chunk "ResultWriter_new []"
      "[StepSkip1 2, StepSkip2 1]" "[]"]
  from t[THEN conjunct2, THEN conjunct2, THEN conjunct1, rule_format, OF h]
  show ?thesis by (simp add: ResultWriter_new_def record_chunk_def)
qed



text \<open>
  C3 (as amended). At a cell inside the table whose flag is \<open>SKIP_ANY\<close>, the body of
  the loop of \<open>SaveResult\<close> emits a "skip 2" step of length one and advances the index
  of the second sequence, leaving the index of the first where it is.
\<close>

theorem tie_advances_second:
  assumes "p1 < len1 d" and "p2 < len2 d" and "get_direction d buf p1 p2 = SKIP_ANY"
  shows "SaveResult_body ac d buf writer p1 p2 = Continue (skip2 1 writer) p1 (p2 + 1) \<and>
         pos1 (skip2 1 writer) = pos1 writer \<and> pos2 (skip2 1 writer) = pos2 writer + 1"
  using assms by (simp add: SaveResult_body_def skip2_def StartChunk_def Let_def)

theorem tie_advances_second_witness:
  "SaveResult_body record_chunk tie_differencer tie_table (ResultWriter_new []) 0 0 =
     Continue (skip2 1 (ResultWriter_new [])) 0 (0 + 1) \<and>
   pos1 (skip2 1 (ResultWriter_new [] :: chunk list ResultWriter)) = pos1 (ResultWriter_new [] :: chunk list ResultWriter) \<and>
   pos2 (skip2 1 (ResultWriter_new [] :: chunk list ResultWriter)) = pos2 (ResultWriter_new [] :: chunk list ResultWriter) + 1"
proof -
  have a: "0 < len1 tie_differencer" "0 < len2 tie_differencer"
    by (simp_all add: tie_differencer_def Differencer_new_def TokensCompareInput_def)
  have b: "get_direction tie_differencer tie_table 0 0 = SKIP_ANY"
    by code_simp
  show ?thesis
    using tie_advances_second[OF a b] by simp
qed

text \<open>
  The claim as written fails: for the one-character texts \<open>a\<close> and \<open>b\<close> the cell
  \<open>(0, 0)\<close> is a tie, and the loop body does not advance the first index with a
  "skip 1" step.
\<close>

theorem tie_counterexample:
  "get_direction tie_differencer tie_table 0 0 = SKIP_ANY \<and>
   SaveResult_body record_chunk tie_differencer tie_table (ResultWriter_new []) 0 0 \<noteq>
     Continue (skip1 1 (ResultWriter_new [])) (0 + 1) 0"
  by code_simp

text \<open>
  C4 (as amended). For every pair of texts whose line tables fit without narrowing (with
  \<open>n1\<close> and \<open>n2\<close> the numbers of lines of the two texts, \<open>n1 * n2 < 2^31\<close> and
  \<open>n1 + n2 < 2^29\<close>), let the tail of the narrowed run be the lines that it skips in one
  step after its loop has reached the end of one of the two ranges left by
  \<open>NarrowDownInput\<close>. When \<open>NarrowDownInput\<close> trims no suffix, or no line of that tail
  equals the first line of the suffix it trims (\<open>suffix_line_fresh\<close>), the pipeline with
  \<open>NarrowDownInput\<close> and the same pipeline without it give the same result, for every
  sink. That condition is exactly the one under which the two line-level runs emit the
  same line chunks. In every case the two line-level runs skip the same number of lines:
  narrowing may choose another chunk list, never a costlier one.
\<close>

theorem narrowing_keeps_output_if_suffix_fresh:
  assumes "fits_int32 (LineEndsWrapper_length (LineEndsWrapper_new s1))
                      (LineEndsWrapper_length (LineEndsWrapper_new s2))"
  shows "(suffix_line_fresh s1 s2 \<longrightarrow>
            CompareStrings_into wc w s1 s2 = CompareStrings_without_narrowing wc w s1 s2) \<and>
         (case NarrowDownInput (line_input s1 s2)
                 (TokenizingLineArrayCompareOutput_new w (LineEndsWrapper_new s1)
                    (LineEndsWrapper_new s2) s1 s2) of
            (inp', out') \<Rightarrow>
              (CalculateDifference record_chunk (LineArray_Input (line_input s1 s2)) [] =
                 map (shift (out_subrange_offset1 out') (out_subrange_offset2 out'))
                   (CalculateDifference record_chunk (LineArray_Input inp') []) \<longleftrightarrow>
               suffix_line_fresh s1 s2) \<and>
              chunks_size (CalculateDifference record_chunk (LineArray_Input inp') []) =
              chunks_size (CalculateDifference record_chunk (LineArray_Input (line_input s1 s2)) []))"
proof (intro conjI impI)
  note f = lines_fit_narrowed[OF assms]
  {
    assume "suffix_line_fresh s1 s2"
    then show "CompareStrings_into wc w s1 s2 = CompareStrings_without_narrowing wc w s1 s2"
      by (simp add: CompareStrings_into_replay[OF f]
          CompareStrings_without_narrowing_replay[OF assms] fresh_line_chunks)
  }
  have a: "CalculateDifference record_chunk (LineArray_Input (narrowed_input s1 s2)) [] =
      diff_chunks (LineArray_Input (narrowed_input s1 s2))"
    using f unfolding CompareStrings_fits_iff by (intro CalculateDifference_chunks) blast
  have b: "CalculateDifference record_chunk (LineArray_Input (line_input s1 s2)) [] =
      diff_chunks (LineArray_Input (line_input s1 s2))"
    using assms by (intro CalculateDifference_chunks) simp
  show "case NarrowDownInput (line_input s1 s2)
                 (TokenizingLineArrayCompareOutput_new w (LineEndsWrapper_new s1)
                    (LineEndsWrapper_new s2) s1 s2) of
            (inp', out') \<Rightarrow>
              (CalculateDifference record_chunk (LineArray_Input (line_input s1 s2)) [] =
                 map (shift (out_subrange_offset1 out') (out_subrange_offset2 out'))
                   (CalculateDifference record_chunk (LineArray_Input inp') []) \<longleftrightarrow>
               suffix_line_fresh s1 s2) \<and>
              chunks_size (CalculateDifference record_chunk (LineArray_Input inp') []) =
              chunks_size (CalculateDifference record_chunk (LineArray_Input (line_input s1 s2)) [])"
    unfolding NarrowDownInput_eq prod.case a b
    using fresh_line_chunks_iff[of s1 s2] line_chunks_same_size[of s1 s2]
    by (simp add: line_chunks_def)
qed

theorem narrowing_keeps_output_if_suffix_fresh_witness:
  "fits_int32 (LineEndsWrapper_length (LineEndsWrapper_new text_return1))
              (LineEndsWrapper_length (LineEndsWrapper_new text_return2)) \<and>
   suffix_line_fresh text_return1 text_return2 \<and>
   common_prefix_len text_return1 text_return2 = 1 \<and>
   common_suffix_len text_return1 text_return2 = 1 \<and>
   CompareStrings_into record_chunk [] text_return1 text_return2 =
     CompareStrings_without_narrowing record_chunk [] text_return1 text_return2"
proof -
  have f: "fits_int32 (LineEndsWrapper_length (LineEndsWrapper_new text_return1))
              (LineEndsWrapper_length (LineEndsWrapper_new text_return2))"
    by code_simp
  have h: "suffix_line_fresh text_return1 text_return2" by code_simp
  have p: "common_prefix_len text_return1 text_return2 = 1" by code_simp
  have s: "common_suffix_len text_return1 text_return2 = 1" by code_simp
  from narrowing_keeps_output_if_suffix_fresh[OF f, of record_chunk "[]", THEN conjunct1] h
  have "CompareStrings_into record_chunk [] text_return1 text_return2 =
     CompareStrings_without_narrowing record_chunk [] text_return1 text_return2"
    by simp
  then show ?thesis using f h p s by simp
qed

text \<open>
  The claim as written fails when a common suffix is trimmed: for the lines \<open>a\<close>, \<open>b\<close>,
  \<open>b\<close> against the line \<open>b\<close> the source deletes the first two lines in one chunk,
  while the pipeline without narrowing deletes the first and the third line in two
  chunks.
\<close>

theorem narrowing_counterexample:
  "CompareStrings_into record_chunk [] text_abb text_b = [(0, 0, 4, 0)] \<and>
   CompareStrings_without_narrowing record_chunk [] text_abb text_b = [(0, 0, 2, 0), (4, 2, 2, 0)] \<and>
   CompareStrings_into record_chunk [] text_abb text_b \<noteq>
     CompareStrings_without_narrowing record_chunk [] text_abb text_b"
  by code_simp

text \<open>
  In that example the first line of the trimmed suffix, \<open>b\<close>, is also the second line of
  the first text, which is in the range left by \<open>NarrowDownInput\<close>; the two line-level
  runs both skip two lines.
\<close>

lemma suffix_line_not_fresh_example:
  "\<not> suffix_line_fresh text_abb text_b \<and>
   common_prefix_len text_abb text_b = 0 \<and> common_suffix_len text_abb text_b = 2"
  by code_simp

text \<open>
  C5 (as amended). For every line chunk handed to \<open>AddChunk\<close>: if both of its
  character lengths are below 800, the sink receives, in place of the chunk, the chunks
  of a nested character run of the engine and the merger alone (\<open>CalculateDifference\<close>,
  with no prefix and suffix trimming) on the chunk's two character spans, each moved
  by the chunk's absolute character starts; if either character length is 800 or more,
  the sink receives the translated chunk itself, once.
\<close>

theorem AddChunk_nested_or_verbatim:
  "AddChunk wc line_pos1 line_pos2 line_len1 line_len2 out =
     (let lp1 = line_pos1 + out_subrange_offset1 out;
          lp2 = line_pos2 + out_subrange_offset2 out;
          char_pos1 = GetLineStart (out_line_ends1 out) lp1;
          char_pos2 = GetLineStart (out_line_ends2 out) lp2;
          char_len1 = GetLineStart (out_line_ends1 out) (lp1 + line_len1) - char_pos1;
          char_len2 = GetLineStart (out_line_ends2 out) (lp2 + line_len2) - char_pos2
      in if char_len1 < 800 \<and> char_len2 < 800
         then out\<lparr>out_array_writer :=
                replay wc (out_array_writer out)
                  (map (shift char_pos1 char_pos2)
                     (CalculateDifference record_chunk
                        (TokensCompareInput (out_s1 out) char_pos1 char_len1
                                            (out_s2 out) char_pos2 char_len2) []))\<rparr>
         else out\<lparr>out_array_writer :=
                wc char_pos1 char_pos2 char_len1 char_len2 (out_array_writer out)\<rparr>)"
  by (simp add: AddChunk_def Let_def CHUNK_LEN_LIMIT_def replay_Tokens replay_Cons
      CalculateDifference_replay[of "TokensCompareOutput_AddChunk wc"])

text \<open>
  The claim as written fails: on the one-line texts \<open>abb\<close> and \<open>b\<close> the line pass
  produces the one line chunk \<open>(0, 0, 1, 1)\<close>, for which the source's nested run deletes the first and the third character in two chunks, while a nested run that
  trims the common suffix first deletes the first two characters in one chunk.
\<close>

theorem nested_trimmer_counterexample:
  "CalculateDifference record_chunk
     (LineArray_Input (fst (NarrowDownInput (line_input ''abb'' ''b'') abb_output))) [] =
     [(0, 0, 1, 1)] \<and>
   out_array_writer (AddChunk record_chunk 0 0 1 1 abb_output) = [(0, 0, 1, 0), (2, 1, 1, 0)] \<and>
   out_array_writer (AddChunk_with_trimmer record_chunk 0 0 1 1 abb_output) = [(0, 0, 2, 0)] \<and>
   AddChunk record_chunk 0 0 1 1 abb_output \<noteq> AddChunk_with_trimmer record_chunk 0 0 1 1 abb_output"
  by code_simp

end
